theory Spec2Isabelle
  imports Complex_Main "HOL-Library.AList" "HOL-Library.Multiset"
begin

section \<open>Fractured Crowns: shared conventions\<close>

text \<open>
  The simulation core is TypeScript. Its \<open>number\<close> values are modelled as mathematical
  numbers: tile coordinates, counters and indices as \<open>int\<close>/\<open>nat\<close>, positions, hit
  points, gold and durations as \<open>real\<close>. Rounding of IEEE doubles, \<open>NaN\<close> and the
  infinities are outside the model. \<open>Math.floor\<close> is \<open>floor\<close>, \<open>Math.round\<close>
  (round half up) is \<open>round\<close>.

  A JavaScript \<open>Map\<close> is an association list in insertion order:
  \<open>get\<close> is \<open>map_of\<close>, \<open>set\<close> is \<open>AList.update\<close> (an existing key keeps its place, a new
  key goes to the end), \<open>delete\<close> is \<open>AList.delete\<close>, \<open>size\<close> is \<open>length\<close>.
  String keys of the form \<open>"x,y"\<close> built from two integers are modelled as the pair.
\<close>

type_synonym PlayerId = string
type_synonym SquadId = string
type_synonym TileKey = "int \<times> int"

section \<open>types/game.ts: shared type definitions\<close>

datatype TerrainType = Plains | Forest | Mountain | Mine | Water

datatype StructureType = Castle | Barracks | Wall | Tower | MineUpgrade | Road

datatype UnitType = Militia | Soldier | Knight | Archer | SiegeRam

datatype MatchPhase = Waiting | SpawnSelection | Playing | Finished

text \<open>A field that may be \<open>null\<close> is an \<open>option\<close>. Field names that are shared between
  interfaces, or that name a constant of HOL, carry the interface's name as a prefix.\<close>

record Tile =
  tile_x :: int
  tile_y :: int
  terrain :: TerrainType
  tile_ownerId :: "PlayerId option"
  structureType :: "StructureType option"
  structureHp :: real
  captureProgress :: real
  capturingPlayerId :: "PlayerId option"
  tile_connected :: bool
  mineLevel :: nat

record GameMap =
  width :: int
  height :: int
  tiles :: "Tile list list"

record UnitStats =
  maxHp :: real
  damage :: real
  speed :: real
  cost :: real
  attackRange :: real
  trainTime :: real

fun UNIT_STATS :: "UnitType \<Rightarrow> UnitStats" where
  "UNIT_STATS Militia =
     \<lparr>maxHp = 40, damage = 5, speed = 2.5, cost = 20, attackRange = 1, trainTime = 3\<rparr>"
| "UNIT_STATS Soldier =
     \<lparr>maxHp = 70, damage = 10, speed = 2.0, cost = 50, attackRange = 1, trainTime = 5\<rparr>"
| "UNIT_STATS Knight =
     \<lparr>maxHp = 120, damage = 18, speed = 3.0, cost = 120, attackRange = 1, trainTime = 8\<rparr>"
| "UNIT_STATS Archer =
     \<lparr>maxHp = 35, damage = 12, speed = 2.0, cost = 60, attackRange = 4, trainTime = 5\<rparr>"
| "UNIT_STATS SiegeRam =
     \<lparr>maxHp = 200, damage = 40, speed = 1.0, cost = 200, attackRange = 1, trainTime = 12\<rparr>"

record Unit =
  unit_id :: string
  unit_type :: UnitType
  unit_hp :: real
  unit_maxHp :: real

record Squad =
  squad_id :: SquadId
  squad_ownerId :: PlayerId
  units :: "Unit list"
  squad_x :: real
  squad_y :: real
  targetX :: "int option"
  targetY :: "int option"
  path :: "TileKey list"
  pathIndex :: nat
  moveProgress :: real


fun BUILDING_HP :: "StructureType \<Rightarrow> real" where
  "BUILDING_HP Castle = 500"
| "BUILDING_HP Barracks = 200"
| "BUILDING_HP Wall = 300"
| "BUILDING_HP Tower = 150"
| "BUILDING_HP MineUpgrade = 100"
| "BUILDING_HP Road = 30"

record Player =
  player_id :: PlayerId
  username :: string
  isBot :: bool
  gold :: real
  goldPerSecond :: real
  territoryCount :: nat
  capitalX :: int
  capitalY :: int
  color :: string
  alive :: bool
  score :: real
  player_connected :: bool
  spawnSelected :: bool

text \<open>The \<open>ECONOMY\<close> and \<open>MATCH_CONFIG\<close> constants the modelled code reads.\<close>

definition BASE_MINE_INCOME :: real where "BASE_MINE_INCOME = 10"
definition MINE_UPGRADE_BONUS :: real where "MINE_UPGRADE_BONUS = 5"
definition PASSIVE_TERRITORY_INCOME :: real where "PASSIVE_TERRITORY_INCOME = 0.2"
definition STARTING_GOLD :: real where "STARTING_GOLD = 300"
definition EXPANSION_PENALTY_DIVISOR :: real where "EXPANSION_PENALTY_DIVISOR = 50"
definition EXPANSION_PENALTY_EXPONENT :: real where "EXPANSION_PENALTY_EXPONENT = 1.2"

definition MAX_PLAYERS :: nat where "MAX_PLAYERS = 20"
definition MIN_SPAWN_DISTANCE :: int where "MIN_SPAWN_DISTANCE = 20"
definition CAPTURE_RATE :: real where "CAPTURE_RATE = 8"
definition CAPTURE_THRESHOLD :: real where "CAPTURE_THRESHOLD = 100"

text \<open>
  The coordinates of a command come from the client as they are: the socket handler checks
  only \<open>command.type\<close>. A field that is missing or is not a number becomes \<open>NaN\<close> under
  \<open>Math.round\<close>, so a coordinate is a number or \<open>NaN\<close>. (\<open>Infinity\<close> takes the same
  branch as a large finite number in every comparison the handlers make, and is not modelled
  apart.)
\<close>

datatype jsNumber = Num real | NaN


record TrainingOrder =
  order_unitType :: UnitType
  remainingTime :: real
  buildingX :: int
  buildingY :: int

record RallyPoint =
  rally_x :: jsNumber
  rally_y :: jsNumber

definition PLAYER_COLORS :: "string list" where
  "PLAYER_COLORS =
     [''#e74c3c'', ''#3498db'', ''#2ecc71'', ''#f39c12'', ''#9b59b6'', ''#1abc9c'', ''#e67e22'',
      ''#e91e63'', ''#00bcd4'', ''#8bc34a'', ''#ff5722'', ''#673ab7'', ''#009688'', ''#ffc107'',
      ''#795548'', ''#607d8b'', ''#cddc39'', ''#ff9800'', ''#03a9f4'', ''#4caf50'']"



definition numLess :: "int option \<Rightarrow> int \<Rightarrow> bool" where
  "numLess a b = (case a of None \<Rightarrow> False | Some v \<Rightarrow> v < b)"

definition numGeq :: "int option \<Rightarrow> int \<Rightarrow> bool" where
  "numGeq a b = (case a of None \<Rightarrow> False | Some v \<Rightarrow> v \<ge> b)"


text \<open>
  Reading \<open>map.tiles[y]?.[x]\<close>: \<open>None\<close> is the source's \<open>undefined\<close>, for a row or a
  column outside the arrays. A read \<open>map.tiles[y][x]\<close> whose result is then dereferenced
  raises a \<open>TypeError\<close> in that case.
\<close>

datatype jsError = TypeError

definition tileAt :: "GameMap \<Rightarrow> int \<Rightarrow> int \<Rightarrow> Tile option" where
  "tileAt m x y =
     (if 0 \<le> y \<and> y < int (length (tiles m)) \<and> 0 \<le> x \<and> x < int (length (tiles m ! nat y))
      then Some (tiles m ! nat y ! nat x) else None)"

text \<open>Tiles are objects mutated in place; \<open>updateTile\<close> writes the changed tile back to
  its place in the grid (a place outside the grid has no tile to change).\<close>

definition updateTile :: "GameMap \<Rightarrow> int \<Rightarrow> int \<Rightarrow> (Tile \<Rightarrow> Tile) \<Rightarrow> GameMap" where
  "updateTile m x y f =
     (case tileAt m x y of
        None \<Rightarrow> m
      | Some t \<Rightarrow> m\<lparr>tiles := (tiles m)[nat y := (tiles m ! nat y)[nat x := f t]]\<rparr>)"

text \<open>A map as \<open>MapGenerator.generate\<close> builds it: \<open>height\<close> rows of \<open>width\<close> tiles.\<close>

definition wellFormedMap :: "GameMap \<Rightarrow> bool" where
  "wellFormedMap m \<longleftrightarrow>
     0 \<le> width m \<and> 0 \<le> height m \<and> length (tiles m) = nat (height m) \<and>
     list_all (\<lambda>row. length row = nat (width m)) (tiles m)"

section \<open>MapGenerator.ts: spawn validity and pathfinding\<close>

text \<open>The offsets of a square window, rows (\<open>dy\<close>) outside and columns (\<open>dx\<close>) inside, as
  the nested \<open>for\<close> loops enumerate them.\<close>

definition windowOffsets :: "int \<Rightarrow> (int \<times> int) list" where
  "windowOffsets r = concat (map (\<lambda>dy. map (\<lambda>dx. (dx, dy)) [- r..r]) [- r..r])"

fun countOpenSpace :: "GameMap \<Rightarrow> int \<Rightarrow> int \<Rightarrow> (int \<times> int) list \<Rightarrow> nat \<Rightarrow> jsError + nat" where
  "countOpenSpace m x y [] openSpace = Inr openSpace"
| "countOpenSpace m x y ((dx, dy) # rest) openSpace =
     (let nx = x + dx; ny = y + dy
      in if nx \<ge> 0 \<and> nx < width m \<and> ny \<ge> 0 \<and> ny < height m then
           (case tileAt m nx ny of
              None \<Rightarrow> Inl TypeError
            | Some t \<Rightarrow>
                if terrain t \<noteq> Mountain \<and> terrain t \<noteq> Water
                then countOpenSpace m x y rest (openSpace + 1)
                else countOpenSpace m x y rest openSpace)
         else countOpenSpace m x y rest openSpace)"

text \<open>\<open>isValidSpawn\<close> is called with the rounded coordinates of the command. With a
  \<open>NaN\<close> coordinate the edge test is false for that coordinate, and reading
  \<open>map.tiles[y][x]\<close> and then \<open>tile.terrain\<close> raises a \<open>TypeError\<close>.\<close>

definition isValidSpawn ::
  "GameMap \<Rightarrow> int option \<Rightarrow> int option \<Rightarrow> (int \<times> int) list \<Rightarrow> jsError + bool" where
  "isValidSpawn m x y existingSpawns =
     (if numLess x 5 \<or> numLess y 5 \<or> numGeq x (width m - 5) \<or> numGeq y (height m - 5)
      then Inr False
      else
        (case (x, y) of
           (Some xi, Some yi) \<Rightarrow>
             (case tileAt m xi yi of
                None \<Rightarrow> Inl TypeError
              | Some tile \<Rightarrow>
                  if terrain tile = Mountain \<or> terrain tile = Water then Inr False
                  else if list_ex (\<lambda>(sx, sy). (sx - xi) * (sx - xi) + (sy - yi) * (sy - yi)
                                     < MIN_SPAWN_DISTANCE * MIN_SPAWN_DISTANCE) existingSpawns
                  then Inr False
                  else
                    (case countOpenSpace m xi yi (windowOffsets 2) 0 of
                       Inl e \<Rightarrow> Inl e
                     | Inr openSpace \<Rightarrow> Inr (openSpace \<ge> 18)))
         | _ \<Rightarrow> Inl TypeError))"

text \<open>\<open>getPassableNeighbors\<close>: the four neighbours in the order left, right, up, down,
  each with its movement cost; a road overrides the terrain cost.\<close>

definition directions :: "(int \<times> int) list" where
  "directions = [(- 1, 0), (1, 0), (0, - 1), (0, 1)]"

definition neighborCost :: "Tile \<Rightarrow> real" where
  "neighborCost tile =
     (let cost = 1.0;
          cost = (if terrain tile = Forest then 1.5 else cost);
          cost = (if terrain tile = Water then 2.5 else cost);
          cost = (if structureType tile = Some Road then 0.6 else cost)
      in cost)"

fun passableNeighborsIn ::
  "GameMap \<Rightarrow> int \<Rightarrow> int \<Rightarrow> (int \<times> int) list \<Rightarrow> jsError + (int \<times> int \<times> real) list" where
  "passableNeighborsIn m x y [] = Inr []"
| "passableNeighborsIn m x y ((dx, dy) # rest) =
     (let nx = x + dx; ny = y + dy
      in if nx < 0 \<or> ny < 0 \<or> nx \<ge> width m \<or> ny \<ge> height m
         then passableNeighborsIn m x y rest
         else
           (case tileAt m nx ny of
              None \<Rightarrow> Inl TypeError
            | Some tile \<Rightarrow>
                if terrain tile = Mountain then passableNeighborsIn m x y rest
                else
                  (case passableNeighborsIn m x y rest of
                     Inl e \<Rightarrow> Inl e
                   | Inr neighbors \<Rightarrow> Inr ((nx, ny, neighborCost tile) # neighbors))))"

definition getPassableNeighbors :: "GameMap \<Rightarrow> int \<Rightarrow> int \<Rightarrow> jsError + (int \<times> int \<times> real) list" where
  "getPassableNeighbors m x y = passableNeighborsIn m x y directions"

subsection \<open>The binary min-heap of the open set\<close>

record HeapNode =
  node_x :: int
  node_y :: int
  node_f :: real
  node_g :: real

text \<open>The comparator is \<open>a.f - b.f\<close>; it is negative exactly when \<open>a.f < b.f\<close>. Every array
  index the heap code reads is in range: \<open>bubbleUp\<close> starts at the element just pushed
  and moves to parents, \<open>sinkDown\<close> starts at the root of a non-empty array and tests
  every child index against the length.\<close>

definition swapAt :: "'a list \<Rightarrow> nat \<Rightarrow> nat \<Rightarrow> 'a list" where
  "swapAt xs i j = xs[i := xs ! j, j := xs ! i]"

function bubbleUp :: "HeapNode list \<Rightarrow> nat \<Rightarrow> HeapNode list" where
  "bubbleUp data i =
     (if i > 0 then
        (let parent = (i - 1) div 2
         in if node_f (data ! i) < node_f (data ! parent)
            then bubbleUp (swapAt data i parent) parent
            else data)
      else data)"
  by pat_completeness auto
termination
  by (relation "measure (\<lambda>(data, i). i)") auto

declare bubbleUp.simps [simp del]

function sinkDown :: "HeapNode list \<Rightarrow> nat \<Rightarrow> HeapNode list" where
  "sinkDown data i =
     (let len = length data;
          left = 2 * i + 1;
          right = 2 * i + 2;
          smallest = i;
          smallest = (if left < len \<and> node_f (data ! left) < node_f (data ! smallest)
                      then left else smallest);
          smallest = (if right < len \<and> node_f (data ! right) < node_f (data ! smallest)
                      then right else smallest)
      in if smallest \<noteq> i then sinkDown (swapAt data i smallest) smallest else data)"
  by pat_completeness auto
termination
  by (relation "measure (\<lambda>(data, i). length data - i)")
     (auto simp: swapAt_def split: if_splits)

declare sinkDown.simps [simp del]

definition MinHeap_push :: "HeapNode list \<Rightarrow> HeapNode \<Rightarrow> HeapNode list" where
  "MinHeap_push data item = bubbleUp (data @ [item]) (length data)"

text \<open>\<open>pop\<close> returns the top and the remaining heap; \<open>None\<close> is \<open>undefined\<close>, for an
  empty heap.\<close>

definition MinHeap_pop :: "HeapNode list \<Rightarrow> (HeapNode \<times> HeapNode list) option" where
  "MinHeap_pop data =
     (if length data = 0 then None
      else
        (let top = data ! 0;
             lst = last data;
             data = butlast data
         in if length data > 0 then Some (top, sinkDown (data[0 := lst]) 0)
            else Some (top, data)))"

subsection \<open>A* search\<close>

text \<open>
  Rebuilding the path follows \<open>cameFrom\<close> from the end key back to the start key. The
  source loop has no bound, so this is a partial function: the outer \<open>None\<close> is a loop
  that never ends, \<open>Inl TypeError\<close> is the failure of parsing an \<open>undefined\<close> key.
\<close>

partial_function (option) reconstructPath ::
  "(TileKey \<times> TileKey) list \<Rightarrow> TileKey \<Rightarrow> TileKey \<Rightarrow> TileKey list \<Rightarrow> (jsError + TileKey list) option" where
  "reconstructPath cameFrom startKey key pth =
     (if key \<noteq> startKey then
        (case map_of cameFrom key of
           None \<Rightarrow> Some (Inl TypeError)
         | Some prev \<Rightarrow> reconstructPath cameFrom startKey prev (key # pth))
      else Some (Inr pth))"

declare reconstructPath.simps [code]

type_synonym SearchState =
  "HeapNode list \<times> (TileKey \<times> TileKey) list \<times> (TileKey \<times> real) list"

fun relaxNeighbors ::
  "int \<Rightarrow> int \<Rightarrow> HeapNode \<Rightarrow> TileKey list \<Rightarrow> (int \<times> int \<times> real) list \<Rightarrow> SearchState \<Rightarrow> SearchState" where
  "relaxNeighbors endX endY current visited [] st = st"
| "relaxNeighbors endX endY current visited ((nx, ny, c) # rest) (openSet, cameFrom, gScore) =
     (if (nx, ny) \<in> set visited
      then relaxNeighbors endX endY current visited rest (openSet, cameFrom, gScore)
      else
        (let tentativeG = node_g current + c
         in if (case map_of gScore (nx, ny) of None \<Rightarrow> True | Some existingG \<Rightarrow> tentativeG < existingG)
            then relaxNeighbors endX endY current visited rest
                   (MinHeap_push openSet
                      \<lparr>node_x = nx, node_y = ny,
                       node_f = tentativeG + real_of_int (\<bar>endX - nx\<bar> + \<bar>endY - ny\<bar>),
                       node_g = tentativeG\<rparr>,
                    AList.update (nx, ny) (node_x current, node_y current) cameFrom,
                    AList.update (nx, ny) tentativeG gScore)
            else relaxNeighbors endX endY current visited rest (openSet, cameFrom, gScore)))"

text \<open>The main loop: at most \<open>maxSteps\<close> pops. The result is \<open>Inr None\<close> for the source's
  \<open>null\<close> (no path), \<open>Inr (Some p)\<close> for a path.\<close>

function findPath_loop ::
  "GameMap \<Rightarrow> TileKey \<Rightarrow> TileKey \<Rightarrow> nat \<Rightarrow> nat \<Rightarrow> HeapNode list \<Rightarrow> (TileKey \<times> TileKey) list \<Rightarrow>
   (TileKey \<times> real) list \<Rightarrow> TileKey list \<Rightarrow> (jsError + TileKey list option) option" where
  "findPath_loop m startKey endKey maxSteps steps openSet cameFrom gScore visited =
     (if length openSet > 0 \<and> steps < maxSteps then
        (case MinHeap_pop openSet of
           None \<Rightarrow> Some (Inl TypeError)
         | Some (current, openSet1) \<Rightarrow>
             (let currentKey = (node_x current, node_y current)
              in if currentKey = endKey then
                   (case reconstructPath cameFrom startKey endKey [] of
                      None \<Rightarrow> None
                    | Some (Inl e) \<Rightarrow> Some (Inl e)
                    | Some (Inr pth) \<Rightarrow> Some (Inr (Some pth)))
                 else if currentKey \<in> set visited then
                   findPath_loop m startKey endKey maxSteps (steps + 1) openSet1 cameFrom gScore visited
                 else
                   (case getPassableNeighbors m (node_x current) (node_y current) of
                      Inl e \<Rightarrow> Some (Inl e)
                    | Inr neighbors \<Rightarrow>
                        (case relaxNeighbors (fst endKey) (snd endKey) current (visited @ [currentKey])
                                neighbors (openSet1, cameFrom, gScore) of
                           (openSet2, cameFrom2, gScore2) \<Rightarrow>
                             findPath_loop m startKey endKey maxSteps (steps + 1)
                               openSet2 cameFrom2 gScore2 (visited @ [currentKey])))))
      else Some (Inr None))"
  by pat_completeness auto
termination
  by (relation "measure (\<lambda>(m, startKey, endKey, maxSteps, steps, rest). maxSteps - steps)") auto

declare findPath_loop.simps [simp del]

definition findPath ::
  "GameMap \<Rightarrow> int \<Rightarrow> int \<Rightarrow> int \<Rightarrow> int \<Rightarrow> nat \<Rightarrow> (jsError + TileKey list option) option" where
  "findPath m startX startY endX endY maxSteps =
     (if startX = endX \<and> startY = endY then Some (Inr (Some []))
      else
        (case tileAt m endX endY of
           None \<Rightarrow> Some (Inr None)
         | Some endTile \<Rightarrow>
             if terrain endTile = Mountain then Some (Inr None)
             else findPath_loop m (startX, startY) (endX, endY) maxSteps 0
                    (MinHeap_push []
                       \<lparr>node_x = startX, node_y = startY,
                        node_f = real_of_int (\<bar>endX - startX\<bar> + \<bar>endY - startY\<bar>), node_g = 0\<rparr>)
                    [] [((startX, startY), 0)] []))"

text \<open>The default of the \<open>maxSteps\<close> parameter.\<close>

definition DEFAULT_MAX_STEPS :: nat where
  "DEFAULT_MAX_STEPS = 500"

section \<open>SpatialHash.ts\<close>

record SpatialEntry =
  entry_id :: SquadId
  entry_x :: real
  entry_y :: real
  entry_ownerId :: PlayerId

record SpatialHash =
  cellSize :: real
  cells :: "(TileKey \<times> SpatialEntry list) list"
  entityCells :: "(SquadId \<times> TileKey) list"

text \<open>The constructor; \<open>SPATIAL_HASH_CELL_SIZE = 8\<close> is the default cell size.\<close>

definition SPATIAL_HASH_CELL_SIZE :: real where
  "SPATIAL_HASH_CELL_SIZE = 8"

definition newSpatialHash :: "real \<Rightarrow> SpatialHash" where
  "newSpatialHash cs = \<lparr>cellSize = cs, cells = [], entityCells = []\<rparr>"

definition getCellKey :: "SpatialHash \<Rightarrow> real \<Rightarrow> real \<Rightarrow> TileKey" where
  "getCellKey sh px py = (\<lfloor>px / cellSize sh\<rfloor>, \<lfloor>py / cellSize sh\<rfloor>)"

definition clear :: "SpatialHash \<Rightarrow> SpatialHash" where
  "clear sh = sh\<lparr>cells := [], entityCells := []\<rparr>"

text \<open>\<open>Array.prototype.findIndex\<close>: the first index whose element satisfies the test,
  \<open>None\<close> for the source's \<open>-1\<close>.\<close>

fun findIndex :: "('a \<Rightarrow> bool) \<Rightarrow> 'a list \<Rightarrow> nat option" where
  "findIndex P [] = None"
| "findIndex P (a # as) =
     (if P a then Some 0
      else (case findIndex P as of None \<Rightarrow> None | Some i \<Rightarrow> Some (Suc i)))"

text \<open>\<open>removeFromCell\<close>: swap the entry with the last one and pop; an emptied cell is
  deleted from the map.\<close>

definition removeFromCell :: "SquadId \<Rightarrow> TileKey \<Rightarrow> SpatialHash \<Rightarrow> SpatialHash" where
  "removeFromCell i cellKey sh =
     (case map_of (cells sh) cellKey of
        None \<Rightarrow> sh
      | Some cell \<Rightarrow>
          (let cell' = (case findIndex (\<lambda>e. entry_id e = i) cell of
                          Some idx \<Rightarrow> butlast (cell[idx := last cell])
                        | None \<Rightarrow> cell)
           in if length cell' = 0
              then sh\<lparr>cells := AList.delete cellKey (cells sh)\<rparr>
              else sh\<lparr>cells := AList.update cellKey cell' (cells sh)\<rparr>))"

definition insertOrUpdate :: "SpatialEntry \<Rightarrow> SpatialHash \<Rightarrow> SpatialHash" where
  "insertOrUpdate entry sh =
     (let newCellKey = getCellKey sh (entry_x entry) (entry_y entry);
          oldCellKey = map_of (entityCells sh) (entry_id entry)
      in if oldCellKey = Some newCellKey then
           (case map_of (cells sh) newCellKey of
              Some cell \<Rightarrow>
                (case findIndex (\<lambda>e. entry_id e = entry_id entry) cell of
                   Some idx \<Rightarrow> sh\<lparr>cells := AList.update newCellKey (cell[idx := entry]) (cells sh)\<rparr>
                 | None \<Rightarrow> sh\<lparr>cells := AList.update newCellKey (cell @ [entry]) (cells sh)\<rparr>)
            | None \<Rightarrow> sh)
         else
           (let sh1 = (case oldCellKey of Some k \<Rightarrow> removeFromCell (entry_id entry) k sh
                                        | None \<Rightarrow> sh);
                cell = (case map_of (cells sh1) newCellKey of Some c \<Rightarrow> c | None \<Rightarrow> [])
            in sh1\<lparr>cells := AList.update newCellKey (cell @ [entry]) (cells sh1),
                   entityCells := AList.update (entry_id entry) newCellKey (entityCells sh1)\<rparr>))"

definition remove :: "SquadId \<Rightarrow> SpatialHash \<Rightarrow> SpatialHash" where
  "remove i sh =
     (case map_of (entityCells sh) i of
        Some cellKey \<Rightarrow>
          (let sh1 = removeFromCell i cellKey sh
           in sh1\<lparr>entityCells := AList.delete i (entityCells sh1)\<rparr>)
      | None \<Rightarrow> sh)"

definition entityCount :: "SpatialHash \<Rightarrow> nat" where
  "entityCount sh = length (entityCells sh)"

text \<open>
  \<open>queryRadius\<close>: the cells overlapping the bounding square are visited row by row
  (\<open>cy\<close> outer, \<open>cx\<close> inner), entries within the radius are collected, and the result is
  sorted by squared distance. \<open>Array.prototype.sort\<close> is stable, as \<open>sort_key\<close> is.
\<close>

definition distSqTo :: "real \<Rightarrow> real \<Rightarrow> SpatialEntry \<Rightarrow> real" where
  "distSqTo px py e = (entry_x e - px) * (entry_x e - px) + (entry_y e - py) * (entry_y e - py)"

definition queryRadius :: "SpatialHash \<Rightarrow> real \<Rightarrow> real \<Rightarrow> real \<Rightarrow> SpatialEntry list" where
  "queryRadius sh px py radius =
     (let radiusSq = radius * radius;
          minCx = \<lfloor>(px - radius) / cellSize sh\<rfloor>;
          maxCx = \<lfloor>(px + radius) / cellSize sh\<rfloor>;
          minCy = \<lfloor>(py - radius) / cellSize sh\<rfloor>;
          maxCy = \<lfloor>(py + radius) / cellSize sh\<rfloor>;
          results = concat (map (\<lambda>cy. concat (map (\<lambda>cx.
                       (case map_of (cells sh) (cx, cy) of
                          None \<Rightarrow> []
                        | Some cell \<Rightarrow> filter (\<lambda>e. distSqTo px py e \<le> radiusSq) cell))
                     [minCx..maxCx])) [minCy..maxCy])
      in sort_key (distSqTo px py) results)"

text \<open>
  \<open>findNearestEnemy\<close>: the search radius starts at the cell size and grows by the cell
  size while it does not exceed \<open>maxRadius\<close>. The loop need not end (a cell size that is
  not positive), so it is a partial function: the outer \<open>None\<close> is a loop that never
  returns, \<open>Some None\<close> is the source's \<open>null\<close>.
\<close>

partial_function (option) findNearestEnemy_loop ::
  "SpatialHash \<Rightarrow> real \<Rightarrow> real \<Rightarrow> PlayerId \<Rightarrow> real \<Rightarrow> real \<Rightarrow> SpatialEntry option option" where
  "findNearestEnemy_loop sh px py owner maxRadius radius =
     (if radius \<le> maxRadius then
        (case find (\<lambda>e. entry_ownerId e \<noteq> owner) (queryRadius sh px py radius) of
           Some e \<Rightarrow> Some (Some e)
         | None \<Rightarrow> findNearestEnemy_loop sh px py owner maxRadius (radius + cellSize sh))
      else Some None)"

declare findNearestEnemy_loop.simps [code]

definition findNearestEnemy ::
  "SpatialHash \<Rightarrow> real \<Rightarrow> real \<Rightarrow> PlayerId \<Rightarrow> real \<Rightarrow> SpatialEntry option option" where
  "findNearestEnemy sh px py owner maxRadius =
     findNearestEnemy_loop sh px py owner maxRadius (cellSize sh)"

text \<open>The tower range passed to \<open>findNearestEnemy\<close> by \<open>Match.updateTowers\<close>.\<close>

definition TOWER_RANGE :: real where
  "TOWER_RANGE = 3"

subsection \<open>Operation sequences and structural consistency of the index\<close>

text \<open>The three mutating operations of the class, and a run of them from a given index.\<close>

datatype SpatialOp = OpClear | OpInsertOrUpdate SpatialEntry | OpRemove SquadId

fun applyOp :: "SpatialHash \<Rightarrow> SpatialOp \<Rightarrow> SpatialHash" where
  "applyOp sh OpClear = clear sh"
| "applyOp sh (OpInsertOrUpdate e) = insertOrUpdate e sh"
| "applyOp sh (OpRemove i) = remove i sh"

text \<open>The total number of entries stored in the cell lists.\<close>

definition entryTotal :: "(TileKey \<times> SpatialEntry list) list \<Rightarrow> nat" where
  "entryTotal cs = sum_list (map (\<lambda>c. length (snd c)) cs)"

text \<open>
  The invariant the operations maintain: keys are unique in both maps; every tracked id
  has an entry in the cell it is tracked in; every cell list is non-empty, holds each id
  at most once, and each of its entries is tracked in this very cell, whose key is the
  cell key of the entry's stored coordinates; and the number of tracked ids is the number
  of stored entries.
\<close>

definition consistent :: "SpatialHash \<Rightarrow> bool" where
  "consistent sh \<longleftrightarrow>
     distinct (map fst (cells sh)) \<and> distinct (map fst (entityCells sh)) \<and>
     (\<forall>i k. map_of (entityCells sh) i = Some k \<longrightarrow>
        (\<exists>es. map_of (cells sh) k = Some es \<and> i \<in> entry_id ` set es)) \<and>
     (\<forall>k es. map_of (cells sh) k = Some es \<longrightarrow>
        es \<noteq> [] \<and> distinct (map entry_id es) \<and>
        (\<forall>e \<in> set es. map_of (entityCells sh) (entry_id e) = Some k \<and>
                       getCellKey sh (entry_x e) (entry_y e) = k)) \<and>
     entityCount sh = entryTotal (cells sh)"

definition runOps :: "SpatialHash \<Rightarrow> SpatialOp list \<Rightarrow> SpatialHash" where
  "runOps sh ops = foldl applyOp sh ops"

text \<open>
  Structural consistency in the words of the claim: every tracked id occurs exactly once
  in the list of the cell it is tracked in, with the cell key computed from the stored
  coordinates, and in no other cell; \<open>entityCount\<close> is the number of stored entries; no
  cell holds an empty list.
\<close>

definition structurallyConsistent :: "SpatialHash \<Rightarrow> bool" where
  "structurallyConsistent sh \<longleftrightarrow>
     (\<forall>i k. map_of (entityCells sh) i = Some k \<longrightarrow>
        (\<exists>es. map_of (cells sh) k = Some es \<and>
              length (filter (\<lambda>e. entry_id e = i) es) = 1 \<and>
              (\<forall>e \<in> set es. entry_id e = i \<longrightarrow> getCellKey sh (entry_x e) (entry_y e) = k)) \<and>
        (\<forall>k' es'. map_of (cells sh) k' = Some es' \<and> k' \<noteq> k \<longrightarrow> i \<notin> entry_id ` set es')) \<and>
     entityCount sh = entryTotal (cells sh) \<and>
     (\<forall>k es. map_of (cells sh) k = Some es \<longrightarrow> es \<noteq> [])"

section \<open>Match.ts: the match engine\<close>

record PlayerStats =
  territoryCaptured :: nat
  unitsKilled :: nat
  unitsLost :: nat
  goldEarned :: real
  eliminationOrder :: nat

text \<open>The events pushed to \<open>tickEvents\<close>, one constructor per \<open>type\<close> string.\<close>

datatype GameEvent =
    BuildEvent PlayerId StructureType int int
  | StructureDestroyedEvent int int PlayerId
  | PlayerEliminatedEvent PlayerId string

text \<open>
  The mutable state of a \<open>Match\<close> that the modelled methods read or write. \<open>botAIs\<close>
  keeps the keys of the bot map only. The match holds a generated map from \<open>startMatch\<close>
  on; the methods below run after that.
\<close>

record Match =
  phase :: MatchPhase
  tick :: nat
  gameMap :: GameMap
  players :: "(PlayerId \<times> Player) list"
  playerOrder :: "PlayerId list"
  squads :: "(SquadId \<times> Squad) list"
  spatialHash :: SpatialHash
  trainingQueues :: "(TileKey \<times> TrainingOrder list) list"
  rallyPoints :: "(TileKey \<times> RallyPoint) list"
  playerStats :: "(PlayerId \<times> PlayerStats) list"
  eliminationCounter :: nat
  botAIs :: "PlayerId list"
  tickEvents :: "GameEvent list"

text \<open>JavaScript truthiness of a \<open>string | null\<close>: neither \<open>null\<close> nor the empty string.\<close>

definition truthy :: "string option \<Rightarrow> bool" where
  "truthy v \<longleftrightarrow> v \<noteq> None \<and> v \<noteq> Some []"

subsection \<open>Match setup\<close>

definition addPlayer :: "PlayerId \<Rightarrow> string \<Rightarrow> Match \<Rightarrow> bool \<times> Match" where
  "addPlayer playerId uname s =
     (if length (players s) \<ge> MAX_PLAYERS then (False, s)
      else if map_of (players s) playerId \<noteq> None then (False, s)
      else
        (let colorIndex = length (players s);
             player = \<lparr>player_id = playerId, username = uname, isBot = False,
                       gold = STARTING_GOLD, goldPerSecond = 0, territoryCount = 0,
                       capitalX = - 1, capitalY = - 1,
                       color = PLAYER_COLORS ! (colorIndex mod length PLAYER_COLORS),
                       alive = True, score = 0, player_connected = True,
                       spawnSelected = False\<rparr>
         in (True,
             s\<lparr>players := AList.update playerId player (players s),
               playerOrder := playerOrder s @ [playerId],
               playerStats := AList.update playerId
                 \<lparr>territoryCaptured = 0, unitsKilled = 0, unitsLost = 0, goldEarned = 0,
                  eliminationOrder = 0\<rparr> (playerStats s)\<rparr>)))"

subsection \<open>Squad management\<close>

text \<open>
  \<open>uuidv4()\<close> is a call into a library of random identifiers. An operation takes the
  identifiers its calls return as a parameter \<open>uuid\<close>: \<open>uuid n\<close> is the result of the
  \<open>n\<close>-th call the operation makes (counting from 0).
\<close>

fun makeUnits :: "(nat \<Rightarrow> string) \<Rightarrow> nat \<Rightarrow> (UnitType \<times> nat) list \<Rightarrow> Unit list" where
  "makeUnits uuid k [] = []"
| "makeUnits uuid k ((t, cnt) # rest) =
     map (\<lambda>i. \<lparr>unit_id = uuid (k + i), unit_type = t,
                unit_hp = maxHp (UNIT_STATS t), unit_maxHp = maxHp (UNIT_STATS t)\<rparr>) [0..<cnt]
     @ makeUnits uuid (k + cnt) rest"

definition createSquad ::
  "(nat \<Rightarrow> string) \<Rightarrow> PlayerId \<Rightarrow> real \<Rightarrow> real \<Rightarrow> (UnitType \<times> nat) list \<Rightarrow> Match \<Rightarrow> SquadId \<times> Match" where
  "createSquad uuid ownerId px py composition s =
     (let squadId = uuid 0;
          squad = \<lparr>squad_id = squadId, squad_ownerId = ownerId,
                   units = makeUnits uuid 1 composition,
                   squad_x = px, squad_y = py, targetX = None, targetY = None,
                   path = [], pathIndex = 0, moveProgress = 0\<rparr>
      in (squadId,
          s\<lparr>squads := AList.update squadId squad (squads s),
            spatialHash := insertOrUpdate
              \<lparr>entry_id = squadId, entry_x = px, entry_y = py, entry_ownerId = ownerId\<rparr>
              (spatialHash s)\<rparr>))"

definition removeSquad :: "SquadId \<Rightarrow> Match \<Rightarrow> Match" where
  "removeSquad squadId s =
     s\<lparr>squads := AList.delete squadId (squads s),
       spatialHash := remove squadId (spatialHash s)\<rparr>"

subsection \<open>Command processing\<close>

text \<open>Claiming the starting territory: every tile of the window that lies on the map and
  is not a mountain.\<close>

fun claimTiles :: "PlayerId \<Rightarrow> int \<Rightarrow> int \<Rightarrow> (int \<times> int) list \<Rightarrow> GameMap \<Rightarrow> jsError + GameMap" where
  "claimTiles playerId x y [] m = Inr m"
| "claimTiles playerId x y ((dx, dy) # rest) m =
     (let tx = x + dx; ty = y + dy
      in if tx < 0 \<or> ty < 0 \<or> tx \<ge> width m \<or> ty \<ge> height m
         then claimTiles playerId x y rest m
         else
           (case tileAt m tx ty of
              None \<Rightarrow> Inl TypeError
            | Some tile \<Rightarrow>
                if terrain tile = Mountain then claimTiles playerId x y rest m
                else claimTiles playerId x y rest
                       (updateTile m tx ty
                          (\<lambda>t. t\<lparr>tile_ownerId := Some playerId,
                                  captureProgress := CAPTURE_THRESHOLD,
                                  capturingPlayerId := None,
                                  tile_connected := True\<rparr>))))"

definition executeSpawnSelection ::
  "(nat \<Rightarrow> string) \<Rightarrow> PlayerId \<Rightarrow> int \<Rightarrow> int \<Rightarrow> Match \<Rightarrow> jsError + Match" where
  "executeSpawnSelection uuid playerId x y s =
     (case map_of (players s) playerId of
        None \<Rightarrow> Inr s
      | Some player \<Rightarrow>
          (let s1 = s\<lparr>players := AList.update playerId
                         (player\<lparr>capitalX := x, capitalY := y, spawnSelected := True\<rparr>)
                         (players s)\<rparr>
           in case claimTiles playerId x y (windowOffsets 2) (gameMap s1) of
                Inl e \<Rightarrow> Inl e
              | Inr m1 \<Rightarrow>
                  (case tileAt m1 x y of
                     None \<Rightarrow> Inl TypeError
                   | Some castleTile \<Rightarrow>
                       (let m2 = updateTile m1 x y
                                   (\<lambda>t. t\<lparr>structureType := Some Castle,
                                           structureHp := BUILDING_HP Castle\<rparr>)
                        in Inr (snd (createSquad uuid playerId (real_of_int x)
                                       (real_of_int (y + 1)) [(Militia, 5)]
                                       (s1\<lparr>gameMap := m2\<rparr>)))))))"







subsection \<open>Unit movement: squad speed\<close>

text \<open>The running minimum of \<open>getSquadSpeed\<close> starts at \<open>Infinity\<close>.\<close>

datatype ExtNumber = Finite real | PlusInfinity

fun scaleBy :: "real \<Rightarrow> ExtNumber \<Rightarrow> ExtNumber" where
  "scaleBy c (Finite v) = Finite (v * c)"
| "scaleBy c PlusInfinity = PlusInfinity"

fun belowExt :: "real \<Rightarrow> ExtNumber \<Rightarrow> bool" where
  "belowExt a (Finite v) = (a < v)"
| "belowExt a PlusInfinity = True"

fun slowestSpeed :: "ExtNumber \<Rightarrow> Unit list \<Rightarrow> ExtNumber" where
  "slowestSpeed minSpeed [] = minSpeed"
| "slowestSpeed minSpeed (u # us) =
     slowestSpeed (if belowExt (speed (UNIT_STATS (unit_type u))) minSpeed
                   then Finite (speed (UNIT_STATS (unit_type u))) else minSpeed) us"

definition getSquadSpeed :: "Match \<Rightarrow> Squad \<Rightarrow> jsError + ExtNumber" where
  "getSquadSpeed s squad =
     (if length (units squad) = 0 then Inr (Finite 0)
      else
        (let minSpeed = slowestSpeed PlusInfinity (units squad);
             tileX = round (squad_x squad);
             tileY = round (squad_y squad)
         in if tileX \<ge> 0 \<and> tileY \<ge> 0 \<and> tileX < width (gameMap s) \<and> tileY < height (gameMap s)
            then
              (case tileAt (gameMap s) tileX tileY of
                 None \<Rightarrow> Inl TypeError
               | Some tile \<Rightarrow>
                   (let minSpeed = (if terrain tile = Forest then scaleBy 0.6 minSpeed else minSpeed);
                        minSpeed = (if terrain tile = Water then scaleBy 0.4 minSpeed else minSpeed);
                        minSpeed = (if structureType tile = Some Road then scaleBy 1.5 minSpeed
                                    else minSpeed)
                    in Inr minSpeed))
            else Inr minSpeed))"

subsection \<open>Elimination and attacks on structures\<close>

text \<open>
  Loops over the whole grid (\<open>for y < height\<close>, \<open>for x < width\<close>) are maps over the rows
  and tiles: on the well-formed map a match holds they visit every tile once.
\<close>

definition clearTerritory :: "PlayerId \<Rightarrow> Tile \<Rightarrow> Tile" where
  "clearTerritory playerId tile =
     (if tile_ownerId tile = Some playerId then
        (let t1 = tile\<lparr>tile_ownerId := None, captureProgress := 0, capturingPlayerId := None,
                       tile_connected := False\<rparr>
         in if structureType t1 \<noteq> None then t1\<lparr>structureType := None, structureHp := 0\<rparr>
            else t1)
      else tile)"

definition eliminatePlayer :: "PlayerId \<Rightarrow> Match \<Rightarrow> Match" where
  "eliminatePlayer playerId s =
     (case map_of (players s) playerId of
        None \<Rightarrow> s
      | Some player \<Rightarrow>
          if \<not> alive player then s
          else
            (let s1 = s\<lparr>players := AList.update playerId (player\<lparr>alive := False\<rparr>) (players s),
                        eliminationCounter := eliminationCounter s + 1\<rparr>;
                 s2 = (case map_of (playerStats s1) playerId of
                         None \<Rightarrow> s1
                       | Some stats \<Rightarrow>
                           s1\<lparr>playerStats := AList.update playerId
                                (stats\<lparr>eliminationOrder := eliminationCounter s1\<rparr>)
                                (playerStats s1)\<rparr>);
                 toRemove = map fst (filter (\<lambda>e. squad_ownerId (snd e) = playerId) (squads s2));
                 s3 = fold removeSquad toRemove s2;
                 s4 = s3\<lparr>gameMap := (gameMap s3)
                          \<lparr>tiles := map (map (clearTerritory playerId)) (tiles (gameMap s3))\<rparr>\<rparr>;
                 s5 = s4\<lparr>botAIs := removeAll playerId (botAIs s4)\<rparr>;
                 s6 = s5\<lparr>trainingQueues :=
                          filter (\<lambda>e. \<not> (case tileAt (gameMap s5) (fst (fst e)) (snd (fst e)) of
                                           None \<Rightarrow> False
                                         | Some tile \<Rightarrow> tile_ownerId tile = Some playerId))
                            (trainingQueues s5)\<rparr>
             in s6\<lparr>tickEvents := tickEvents s6 @ [PlayerEliminatedEvent playerId (username player)]\<rparr>))"

definition structureDamage :: "Squad \<Rightarrow> real \<Rightarrow> real" where
  "structureDamage squad dt =
     foldl (\<lambda>totalDamage u.
              totalDamage + damage (UNIT_STATS (unit_type u))
                            * (if unit_type u = SiegeRam then 3.0 else 1.0) * dt)
       0 (units squad)"

definition attackEnemyStructures :: "Squad \<Rightarrow> real \<Rightarrow> Match \<Rightarrow> jsError + Match" where
  "attackEnemyStructures squad dt s =
     (let tileX = round (squad_x squad); tileY = round (squad_y squad)
      in if tileX < 0 \<or> tileY < 0 \<or> tileX \<ge> width (gameMap s) \<or> tileY \<ge> height (gameMap s)
         then Inr s
         else
           (case tileAt (gameMap s) tileX tileY of
              None \<Rightarrow> Inl TypeError
            | Some tile \<Rightarrow>
                (case tile_ownerId tile of
                   None \<Rightarrow> Inr s
                 | Some owner \<Rightarrow>
                     if structureType tile \<noteq> None \<and> truthy (tile_ownerId tile)
                        \<and> owner \<noteq> squad_ownerId squad
                     then
                       (let hp = structureHp tile - structureDamage squad dt;
                            s1 = s\<lparr>gameMap := updateTile (gameMap s) tileX tileY
                                                (\<lambda>t. t\<lparr>structureHp := hp\<rparr>)\<rparr>
                        in if hp \<le> 0 then
                             (let s2 = (if structureType tile = Some Castle
                                        then eliminatePlayer owner s1 else s1)
                              in Inr (s2\<lparr>gameMap := updateTile (gameMap s2) tileX tileY
                                             (\<lambda>t. t\<lparr>structureType := None, structureHp := 0\<rparr>),
                                         tickEvents := tickEvents s2 @
                                             [StructureDestroyedEvent tileX tileY
                                                (squad_ownerId squad)]\<rparr>))
                           else Inr s1)
                     else Inr s)))"

subsection \<open>Territory capture\<close>

record Presence =
  presence_playerId :: PlayerId
  unitCount :: nat

text \<open>The tiles that have squads on them: the first owner seen on a tile holds it, and
  later squads of the same owner add their units.\<close>

definition notePresence :: "Squad \<Rightarrow> (TileKey \<times> Presence) list \<Rightarrow> (TileKey \<times> Presence) list" where
  "notePresence squad squadPositions =
     (let key = (round (squad_x squad), round (squad_y squad))
      in case map_of squadPositions key of
           Some existing \<Rightarrow>
             if presence_playerId existing = squad_ownerId squad
             then AList.update key
                    (existing\<lparr>unitCount := unitCount existing + length (units squad)\<rparr>)
                    squadPositions
             else squadPositions
         | None \<Rightarrow>
             AList.update key
               \<lparr>presence_playerId = squad_ownerId squad, unitCount = length (units squad)\<rparr>
               squadPositions)"

definition squadPositionsOf :: "Match \<Rightarrow> (TileKey \<times> Presence) list" where
  "squadPositionsOf s = fold notePresence (map snd (squads s)) []"

definition bumpTerritory :: "PlayerId \<Rightarrow> (PlayerId \<times> Player) list \<Rightarrow> (PlayerId \<times> Player) list" where
  "bumpTerritory pid ps =
     (case map_of ps pid of
        None \<Rightarrow> ps
      | Some p \<Rightarrow> AList.update pid (p\<lparr>territoryCount := territoryCount p + 1\<rparr>) ps)"

definition dropTerritory :: "PlayerId \<Rightarrow> (PlayerId \<times> Player) list \<Rightarrow> (PlayerId \<times> Player) list" where
  "dropTerritory pid ps =
     (case map_of ps pid of
        None \<Rightarrow> ps
      | Some p \<Rightarrow> AList.update pid (p\<lparr>territoryCount := territoryCount p - 1\<rparr>) ps)"

definition captureTile :: "real \<Rightarrow> TileKey \<times> Presence \<Rightarrow> Match \<Rightarrow> jsError + Match" where
  "captureTile dt kp s =
     (let tx = fst (fst kp); ty = snd (fst kp); presence = snd kp;
          pid = presence_playerId presence
      in if tx < 0 \<or> ty < 0 \<or> tx \<ge> width (gameMap s) \<or> ty \<ge> height (gameMap s) then Inr s
         else
           (case tileAt (gameMap s) tx ty of
              None \<Rightarrow> Inl TypeError
            | Some tile \<Rightarrow>
                if terrain tile = Mountain then Inr s
                else if tile_ownerId tile = Some pid \<and> captureProgress tile \<ge> CAPTURE_THRESHOLD
                then Inr s
                else if tile_ownerId tile \<noteq> Some pid then
                  (if truthy (capturingPlayerId tile) \<and> capturingPlayerId tile \<noteq> Some pid then
                     (let progress = captureProgress tile
                                     - CAPTURE_RATE * dt * real (unitCount presence) * 0.5
                      in Inr (s\<lparr>gameMap := updateTile (gameMap s) tx ty
                                (\<lambda>t. if progress \<le> 0
                                      then t\<lparr>captureProgress := 0, capturingPlayerId := Some pid\<rparr>
                                      else t\<lparr>captureProgress := progress\<rparr>)\<rparr>))
                   else
                     (let progress = captureProgress tile
                                     + CAPTURE_RATE * dt * real (min (unitCount presence) 5)
                      in if progress \<ge> CAPTURE_THRESHOLD then
                           (let previousOwner = tile_ownerId tile;
                                ps1 = bumpTerritory pid (players s);
                                ps2 = (case previousOwner of
                                         None \<Rightarrow> ps1
                                       | Some prev \<Rightarrow>
                                           if truthy previousOwner then dropTerritory prev ps1
                                           else ps1)
                            in Inr (s\<lparr>gameMap := updateTile (gameMap s) tx ty
                                      (\<lambda>t. t\<lparr>tile_ownerId := Some pid,
                                              captureProgress := CAPTURE_THRESHOLD,
                                              capturingPlayerId := None\<rparr>),
                                    players := ps2,
                                    playerStats :=
                                      (case map_of (playerStats s) pid of
                                         None \<Rightarrow> playerStats s
                                       | Some st \<Rightarrow> AList.update pid
                                           (st\<lparr>territoryCaptured := territoryCaptured st + 1\<rparr>)
                                           (playerStats s))\<rparr>))
                         else
                           Inr (s\<lparr>gameMap := updateTile (gameMap s) tx ty
                                  (\<lambda>t. t\<lparr>capturingPlayerId := Some pid,
                                          captureProgress := progress\<rparr>)\<rparr>)))
                else Inr s))"

fun captureTiles :: "real \<Rightarrow> (TileKey \<times> Presence) list \<Rightarrow> Match \<Rightarrow> jsError + Match" where
  "captureTiles dt [] s = Inr s"
| "captureTiles dt (kp # rest) s =
     (case captureTile dt kp s of Inl e \<Rightarrow> Inl e | Inr s' \<Rightarrow> captureTiles dt rest s')"

definition updateTerritory :: "real \<Rightarrow> Match \<Rightarrow> jsError + Match" where
  "updateTerritory dt s = captureTiles dt (squadPositionsOf s) s"

subsection \<open>Economy\<close>

text \<open>\<open>Math.pow\<close> on a base that is not negative is \<open>powr\<close>.\<close>

definition incomeMultiplier :: "nat \<Rightarrow> real" where
  "incomeMultiplier territory =
     1 / (1 + (real territory / EXPANSION_PENALTY_DIVISOR) powr EXPANSION_PENALTY_EXPONENT)"

definition tileIncome :: "PlayerId \<Rightarrow> Tile \<Rightarrow> real" where
  "tileIncome playerId tile =
     (if tile_ownerId tile \<noteq> Some playerId then 0
      else if \<not> tile_connected tile then 0
      else (if terrain tile = Mine
            then BASE_MINE_INCOME + real (mineLevel tile) * MINE_UPGRADE_BONUS else 0)
           + PASSIVE_TERRITORY_INCOME)"

definition baseIncomeOf :: "GameMap \<Rightarrow> PlayerId \<Rightarrow> real" where
  "baseIncomeOf m playerId = foldl (\<lambda>baseIncome tile. baseIncome + tileIncome playerId tile) 0
                               (concat (tiles m))"

text \<open>The per-second income: the raw (base) income times the expansion penalty.\<close>

definition goldPerSecondOf :: "real \<Rightarrow> nat \<Rightarrow> real" where
  "goldPerSecondOf baseIncome territory = baseIncome * incomeMultiplier territory"

definition payPlayer :: "GameMap \<Rightarrow> real \<Rightarrow> PlayerId \<Rightarrow> Player \<Rightarrow> Player" where
  "payPlayer m dt playerId player =
     (if \<not> alive player then player
      else
        (let gps = goldPerSecondOf (baseIncomeOf m playerId) (territoryCount player)
         in player\<lparr>goldPerSecond := real_of_int (round (gps * 100)) / 100,
                   gold := gold player + gps * dt\<rparr>))"

definition calculateEconomy :: "real \<Rightarrow> Match \<Rightarrow> Match" where
  "calculateEconomy dt s =
     s\<lparr>players := map (\<lambda>(pid, p). (pid, payPlayer (gameMap s) dt pid p)) (players s),
       playerStats :=
         map (\<lambda>(pid, st).
                (case map_of (players s) pid of
                   Some p \<Rightarrow>
                     if alive p
                     then (pid, st\<lparr>goldEarned := goldEarned st
                              + goldPerSecondOf (baseIncomeOf (gameMap s) pid) (territoryCount p) * dt\<rparr>)
                     else (pid, st)
                 | None \<Rightarrow> (pid, st)))
           (playerStats s)\<rparr>"

section \<open>Concrete maps and matches\<close>

text \<open>A tile as \<open>MapGenerator.generate\<close> creates it, a map of one terrain, and a match as
  the field initialisers of the class leave it, holding a given map.\<close>

definition newTile :: "TerrainType \<Rightarrow> int \<Rightarrow> int \<Rightarrow> Tile" where
  "newTile t x y =
     \<lparr>tile_x = x, tile_y = y, terrain = t, tile_ownerId = None, structureType = None,
      structureHp = 0, captureProgress = 0, capturingPlayerId = None, tile_connected = False,
      mineLevel = 0\<rparr>"

definition uniformMap :: "TerrainType \<Rightarrow> nat \<Rightarrow> nat \<Rightarrow> GameMap" where
  "uniformMap t w h =
     \<lparr>width = int w, height = int h,
      tiles = map (\<lambda>y. map (\<lambda>x. newTile t (int x) (int y)) [0..<w]) [0..<h]\<rparr>"

definition newMatch :: "GameMap \<Rightarrow> Match" where
  "newMatch m =
     \<lparr>phase = Waiting, tick = 0, gameMap = m, players = [], playerOrder = [], squads = [],
      spatialHash = newSpatialHash SPATIAL_HASH_CELL_SIZE, trainingQueues = [], rallyPoints = [],
      playerStats = [], eliminationCounter = 0, botAIs = [], tickEvents = []\<rparr>"

definition militia :: "string \<Rightarrow> Unit" where
  "militia i = \<lparr>unit_id = i, unit_type = Militia, unit_hp = 40, unit_maxHp = 40\<rparr>"

definition squadAt :: "SquadId \<Rightarrow> PlayerId \<Rightarrow> real \<Rightarrow> real \<Rightarrow> Unit list \<Rightarrow> Squad" where
  "squadAt i owner px py us =
     \<lparr>squad_id = i, squad_ownerId = owner, units = us, squad_x = px, squad_y = py,
      targetX = None, targetY = None, path = [], pathIndex = 0, moveProgress = 0\<rparr>"

definition forestRoadMatch :: Match where
  "forestRoadMatch =
     newMatch \<lparr>width = 1, height = 1,
               tiles = [[(newTile Forest 0 0)\<lparr>structureType := Some Road, structureHp := 30\<rparr>]]\<rparr>"

text \<open>A roster of contestants who have just joined.\<close>

definition joined :: "PlayerId \<Rightarrow> Player" where
  "joined i = \<lparr>player_id = i, username = i, isBot = False, gold = STARTING_GOLD,
             goldPerSecond = 0, territoryCount = 0, capitalX = - 1, capitalY = - 1,
             color = ''#e74c3c'', alive = True, score = 0, player_connected = True,
             spawnSelected = False\<rparr>"

definition rosterOf :: "PlayerId list \<Rightarrow> Match" where
  "rosterOf ids =
     (newMatch (uniformMap Plains 1 1))\<lparr>players := map (\<lambda>i. (i, joined i)) ids,
                                         playerOrder := ids\<rparr>"

definition twentyIds :: "PlayerId list" where
  "twentyIds = [''a'', ''b'', ''c'', ''d'', ''e'', ''f'', ''g'', ''h'', ''i'', ''j'',
                ''k'', ''l'', ''m'', ''n'', ''o'', ''p'', ''q'', ''r'', ''s'', ''t'']"

definition exampleUuid :: "nat \<Rightarrow> string" where
  "exampleUuid n = replicate (Suc n) CHR ''u''"

definition spawnMatch :: Match where
  "spawnMatch = (rosterOf [''a''])\<lparr>gameMap := uniformMap Plains 3 3, phase := SpawnSelection\<rparr>"

text \<open>A match in play: contestant \<open>b\<close> holds a castle with 20 hit points left at
  \<open>(0,0)\<close>, a siege ram of contestant \<open>a\<close> stands on it, and a militia squad of \<open>b\<close>
  stands on the neighbouring tile.\<close>

definition ramSquad :: Squad where
  "ramSquad = squadAt ''sa'' ''a'' 0 0
     [\<lparr>unit_id = ''r1'', unit_type = SiegeRam, unit_hp = 200, unit_maxHp = 200\<rparr>]"

definition castleMatch :: Match where
  "castleMatch =
     (rosterOf [''a'', ''b''])
       \<lparr>phase := Playing,
        gameMap := \<lparr>width = 2, height = 1,
                    tiles = [[(newTile Plains 0 0)
                                \<lparr>tile_ownerId := Some ''b'', structureType := Some Castle,
                                 structureHp := 20, captureProgress := 100,
                                 tile_connected := True\<rparr>,
                              newTile Plains 1 0]]\<rparr>,
        squads := [(''sa'', ramSquad), (''sb'', squadAt ''sb'' ''b'' 1 0 [militia ''m1''])],
        spatialHash := runOps (newSpatialHash SPATIAL_HASH_CELL_SIZE)
           [OpInsertOrUpdate \<lparr>entry_id = ''sa'', entry_x = 0, entry_y = 0, entry_ownerId = ''a''\<rparr>,
            OpInsertOrUpdate \<lparr>entry_id = ''sb'', entry_x = 1, entry_y = 0, entry_ownerId = ''b''\<rparr>]\<rparr>"

section \<open>Notions used to state the properties\<close>

text \<open>The base speed of a unit, and the terrain modifier the movement step applies on a
  tile: the factor of the terrain times the factor of a road.\<close>

definition unitSpeed :: "Unit \<Rightarrow> real" where
  "unitSpeed u = speed (UNIT_STATS (unit_type u))"

definition terrainFactor :: "Tile \<Rightarrow> real" where
  "terrainFactor tile =
     (if terrain tile = Forest then 0.6 else if terrain tile = Water then 0.4 else 1)
     * (if structureType tile = Some Road then 1.5 else 1)"

text \<open>A tile claimed for a contestant, and the squad spawn selection grants.\<close>

definition claimed :: "PlayerId \<Rightarrow> Tile \<Rightarrow> Tile" where
  "claimed playerId t = t\<lparr>tile_ownerId := Some playerId, captureProgress := CAPTURE_THRESHOLD,
                          capturingPlayerId := None, tile_connected := True\<rparr>"

definition startingSquad :: "(nat \<Rightarrow> string) \<Rightarrow> PlayerId \<Rightarrow> int \<Rightarrow> int \<Rightarrow> Squad" where
  "startingSquad uuid playerId x y =
     \<lparr>squad_id = uuid 0, squad_ownerId = playerId,
      units = map (\<lambda>i. \<lparr>unit_id = uuid (1 + i), unit_type = Militia, unit_hp = 40, unit_maxHp = 40\<rparr>)
                [0..<5],
      squad_x = real_of_int x, squad_y = real_of_int y + 1, targetX = None, targetY = None,
      path = [], pathIndex = 0, moveProgress = 0\<rparr>"

text \<open>
  Capture progress within its bounds on every tile of a map; an ownership change between
  two maps that happens at full progress only; an ownership change that only clears the
  owner and resets the progress. \<open>stepOK\<close> and \<open>tileStep\<close> relate one tile before and
  after an operation.
\<close>

definition progressInRange :: "GameMap \<Rightarrow> bool" where
  "progressInRange m \<longleftrightarrow>
     (\<forall>x y t. tileAt m x y = Some t \<longrightarrow> 0 \<le> captureProgress t \<and> captureProgress t \<le> 100)"

definition ownerChangesAtFull :: "GameMap \<Rightarrow> GameMap \<Rightarrow> bool" where
  "ownerChangesAtFull m m' \<longleftrightarrow>
     (\<forall>x y t t'. tileAt m x y = Some t \<and> tileAt m' x y = Some t' \<and>
                 tile_ownerId t' \<noteq> tile_ownerId t \<longrightarrow> captureProgress t' = 100)"

definition stepOK :: "Tile \<Rightarrow> Tile \<Rightarrow> bool" where
  "stepOK t t' \<longleftrightarrow>
     (0 \<le> captureProgress t \<and> captureProgress t \<le> 100 \<longrightarrow>
        0 \<le> captureProgress t' \<and> captureProgress t' \<le> 100) \<and>
     (tile_ownerId t' \<noteq> tile_ownerId t \<longrightarrow> captureProgress t' = 100)"

definition ownerClearedAtZero :: "GameMap \<Rightarrow> GameMap \<Rightarrow> bool" where
  "ownerClearedAtZero m m' \<longleftrightarrow>
     (\<forall>x y t t'. tileAt m x y = Some t \<and> tileAt m' x y = Some t' \<and>
                 tile_ownerId t' \<noteq> tile_ownerId t \<longrightarrow>
                 tile_ownerId t' = None \<and> captureProgress t' = 0)"

definition tileStep :: "GameMap \<Rightarrow> GameMap \<Rightarrow> int \<Rightarrow> int \<Rightarrow> bool" where
  "tileStep m m' x y \<longleftrightarrow>
     (case tileAt m x y of
        None \<Rightarrow> tileAt m' x y = None
      | Some t \<Rightarrow> (\<exists>t'. tileAt m' x y = Some t' \<and> stepOK t t'))"

text \<open>One round of \<open>sinkDown\<close>: the index of the smallest among a node and its children.\<close>

definition smallestOf :: "HeapNode list \<Rightarrow> nat \<Rightarrow> nat" where
  "smallestOf data i =
     (let smallest = (if 2 * i + 1 < length data \<and> node_f (data ! (2 * i + 1)) < node_f (data ! i)
                      then 2 * i + 1 else i)
      in if 2 * i + 2 < length data \<and> node_f (data ! (2 * i + 2)) < node_f (data ! smallest)
         then 2 * i + 2 else smallest)"

text \<open>Notions for the search loop of \<open>findPath\<close>: the tile of a heap node, one
  neighbour relaxation, the chain of \<open>cameFrom\<close> links from a tile back to the start,
  and the invariants of the loop and of the relaxation of one node's neighbours.\<close>

definition nodeKey :: "HeapNode \<Rightarrow> TileKey" where
  "nodeKey e = (node_x e, node_y e)"

definition relaxStep ::
  "int \<Rightarrow> int \<Rightarrow> HeapNode \<Rightarrow> TileKey list \<Rightarrow> int \<times> int \<times> real \<Rightarrow> SearchState \<Rightarrow> SearchState" where
  "relaxStep endX endY current visited n st =
     (case n of (nx, ny, c) \<Rightarrow> case st of (openSet, cameFrom, gScore) \<Rightarrow>
        if (nx, ny) \<in> set visited then (openSet, cameFrom, gScore)
        else
          (let tentativeG = node_g current + c
           in if (case map_of gScore (nx, ny) of None \<Rightarrow> True | Some existingG \<Rightarrow> tentativeG < existingG)
              then (MinHeap_push openSet
                      \<lparr>node_x = nx, node_y = ny,
                       node_f = tentativeG + real_of_int (\<bar>endX - nx\<bar> + \<bar>endY - ny\<bar>),
                       node_g = tentativeG\<rparr>,
                    AList.update (nx, ny) (node_x current, node_y current) cameFrom,
                    AList.update (nx, ny) tentativeG gScore)
              else (openSet, cameFrom, gScore)))"

inductive chainIn :: "TileKey set \<Rightarrow> (TileKey \<times> TileKey) list \<Rightarrow> TileKey \<Rightarrow> TileKey \<Rightarrow> nat \<Rightarrow> bool" where
  chain_start: "chainIn V cf start start 0"
| chain_step: "k \<noteq> start \<Longrightarrow> k \<in> V \<Longrightarrow> map_of cf k = Some p \<Longrightarrow> chainIn V cf start p n
               \<Longrightarrow> chainIn V cf start k (Suc n)"

definition searchInv ::
  "TileKey \<Rightarrow> HeapNode list \<Rightarrow> (TileKey \<times> TileKey) list \<Rightarrow> TileKey list \<Rightarrow> bool" where
  "searchInv start openSet cf visited \<longleftrightarrow>
     (\<forall>e \<in> set openSet. nodeKey e = start \<or> map_of cf (nodeKey e) \<noteq> None) \<and>
     (\<forall>k p. map_of cf k = Some p \<longrightarrow> p \<in> set visited) \<and>
     (\<forall>v \<in> set visited. \<exists>n. chainIn (set visited) cf start v n)"

definition relaxInv ::
  "TileKey \<Rightarrow> TileKey set \<Rightarrow> (TileKey \<times> TileKey) list \<Rightarrow> SearchState \<Rightarrow> bool" where
  "relaxInv start V cf0 st \<longleftrightarrow>
     (case st of (openSet, cf, gs) \<Rightarrow>
        (\<forall>e \<in> set openSet. nodeKey e = start \<or> map_of cf (nodeKey e) \<noteq> None) \<and>
        (\<forall>k p. map_of cf k = Some p \<longrightarrow> p \<in> V) \<and>
        (\<forall>k \<in> V. map_of cf k = map_of cf0 k))"




text \<open>The order of the binary heap: no node is smaller than its parent. \<open>bubbleUp\<close>
  restores it when only the node at \<open>i\<close> may be smaller than its parent, \<open>sinkDown\<close> when
  only the node at \<open>i\<close> may be larger than its children.\<close>

definition isHeap :: "HeapNode list \<Rightarrow> bool" where
  "isHeap data \<longleftrightarrow>
     (\<forall>j < length data. 0 < j \<longrightarrow> node_f (data ! ((j - 1) div 2)) \<le> node_f (data ! j))"

definition heapExcept :: "HeapNode list \<Rightarrow> nat \<Rightarrow> bool" where
  "heapExcept data i \<longleftrightarrow>
     (\<forall>j < length data. 0 < j \<longrightarrow> j \<noteq> i \<longrightarrow>
        node_f (data ! ((j - 1) div 2)) \<le> node_f (data ! j)) \<and>
     (\<forall>j < length data. 0 < j \<longrightarrow> (j - 1) div 2 = i \<longrightarrow> 0 < i \<longrightarrow>
        node_f (data ! ((i - 1) div 2)) \<le> node_f (data ! j))"

definition heapBelow :: "HeapNode list \<Rightarrow> nat \<Rightarrow> bool" where
  "heapBelow data i \<longleftrightarrow>
     (\<forall>j < length data. 0 < j \<longrightarrow> (j - 1) div 2 \<noteq> i \<longrightarrow>
        node_f (data ! ((j - 1) div 2)) \<le> node_f (data ! j)) \<and>
     (\<forall>j < length data. 0 < j \<longrightarrow> (j - 1) div 2 = i \<longrightarrow> 0 < i \<longrightarrow>
        node_f (data ! ((i - 1) div 2)) \<le> node_f (data ! j))"

text \<open>\<open>manhattanDistance\<close> of \<open>types/game.ts\<close>, the distance between two tile keys, the
  cells of a map, and a map all of whose tiles are plains and carry no road (a road changes
  the cost of a step from 1 to 0.6).\<close>

definition manhattanDistance :: "int \<Rightarrow> int \<Rightarrow> int \<Rightarrow> int \<Rightarrow> int" where
  "manhattanDistance x1 y1 x2 y2 = \<bar>x1 - x2\<bar> + \<bar>y1 - y2\<bar>"

definition tileDist :: "TileKey \<Rightarrow> TileKey \<Rightarrow> int" where
  "tileDist a b = manhattanDistance (fst a) (snd a) (fst b) (snd b)"

definition onMap :: "GameMap \<Rightarrow> TileKey \<Rightarrow> bool" where
  "onMap m k \<longleftrightarrow> 0 \<le> fst k \<and> fst k < width m \<and> 0 \<le> snd k \<and> snd k < height m"

definition allPlains :: "GameMap \<Rightarrow> bool" where
  "allPlains m \<longleftrightarrow>
     list_all (list_all (\<lambda>t. terrain t = Plains \<and> structureType t \<noteq> Some Road)) (tiles m)"

text \<open>
  The invariant of the search on such a map, for the visited set \<open>V\<close> and a set \<open>E\<close> of
  relaxed edges: the open set is a heap of at most \<open>L\<close> nodes on the map with
  \<open>f = g + h\<close> and \<open>g\<close> at least the recorded score; a recorded score is at least the
  distance from the start; an unvisited tile with a score has a node of that score in the
  heap; \<open>cameFrom\<close> points to a visited tile one step nearer the start; a visited tile has
  its distance as score and keeps its \<open>cameFrom\<close> entry; the far end of a relaxed edge is
  visited or has a score of at most the distance of the near end plus one.
\<close>

definition coreInv ::
  "GameMap \<Rightarrow> TileKey \<Rightarrow> TileKey \<Rightarrow> TileKey set \<Rightarrow> (TileKey \<times> TileKey) set \<Rightarrow>
   (TileKey \<times> TileKey) list \<Rightarrow> nat \<Rightarrow> SearchState \<Rightarrow> bool" where
  "coreInv m start goal V E cf0 L st \<longleftrightarrow>
     (case st of (openSet, cf, gs) \<Rightarrow>
        isHeap openSet \<and> length openSet \<le> L \<and>
        (\<forall>e \<in> set openSet.
           onMap m (nodeKey e) \<and>
           node_f e = node_g e + real_of_int (tileDist (nodeKey e) goal) \<and>
           (\<exists>g. map_of gs (nodeKey e) = Some g \<and> g \<le> node_g e) \<and>
           (nodeKey e = start \<or> map_of cf (nodeKey e) \<noteq> None)) \<and>
        (\<forall>k g. map_of gs k = Some g \<longrightarrow> onMap m k \<and> real_of_int (tileDist start k) \<le> g) \<and>
        (\<forall>k g. k \<notin> V \<longrightarrow> map_of gs k = Some g \<longrightarrow>
           (\<exists>e \<in> set openSet. nodeKey e = k \<and> node_g e = g)) \<and>
        (\<forall>k p. map_of cf k = Some p \<longrightarrow>
           p \<in> V \<and> map_of gs k = Some (real_of_int (tileDist start p) + 1)) \<and>
        (\<forall>v \<in> V. map_of gs v = Some (real_of_int (tileDist start v)) \<and>
                  map_of cf v = map_of cf0 v) \<and>
        (\<forall>(v, n) \<in> E. n \<in> V \<or>
           (\<exists>g. map_of gs n = Some g \<and> g \<le> real_of_int (tileDist start v) + 1)) \<and>
        map_of gs start = Some 0)"

text \<open>The invariant of the main loop: \<open>coreInv\<close> with every edge out of a visited tile
  relaxed, the goal not visited, a chain of \<open>cameFrom\<close> links of the length of the distance
  from every visited tile to the start, and the count of steps and open nodes bounded by
  four per visited tile.\<close>

definition plainsInv ::
  "GameMap \<Rightarrow> TileKey \<Rightarrow> TileKey \<Rightarrow> nat \<Rightarrow> HeapNode list \<Rightarrow> (TileKey \<times> TileKey) list \<Rightarrow>
   (TileKey \<times> real) list \<Rightarrow> TileKey list \<Rightarrow> bool" where
  "plainsInv m start goal steps openSet cf gs visited \<longleftrightarrow>
     coreInv m start goal (set visited)
       {(v, n). v \<in> set visited \<and> onMap m n \<and> tileDist v n = 1} cf (length openSet)
       (openSet, cf, gs) \<and>
     goal \<notin> set visited \<and>
     (\<forall>v \<in> set visited. onMap m v \<and> chainIn (set visited) cf start v (nat (tileDist start v))) \<and>
     distinct visited \<and> steps + length openSet \<le> 1 + 4 * length visited"

section \<open>Theorems\<close>

subsection \<open>C1: nearest enemy within a radius\<close>

text \<open>
  C1. The claim: when an entity of another owner lies within the maximum radius,
  \<open>findNearestEnemy\<close> returns the nearest one, so a tower fires at an enemy within its
  range of 3 tiles. The code starts its search at the cell size (8), which already
  exceeds the tower range: with one enemy entry at distance 1 from the tower at the
  origin, the enemy is found by \<open>queryRadius\<close> within the tower range, and yet
  \<open>findNearestEnemy\<close> returns \<open>null\<close>.
\<close>

theorem findNearestEnemy_tower_range_null:
  "queryRadius
     (insertOrUpdate \<lparr>entry_id = ''s1'', entry_x = 1, entry_y = 0, entry_ownerId = ''b''\<rparr>
        (newSpatialHash SPATIAL_HASH_CELL_SIZE)) 0 0 TOWER_RANGE
     = [\<lparr>entry_id = ''s1'', entry_x = 1, entry_y = 0, entry_ownerId = ''b''\<rparr>]
   \<and> findNearestEnemy
     (insertOrUpdate \<lparr>entry_id = ''s1'', entry_x = 1, entry_y = 0, entry_ownerId = ''b''\<rparr>
        (newSpatialHash SPATIAL_HASH_CELL_SIZE)) 0 0 ''a'' TOWER_RANGE
     = Some None"
  by (simp add: findNearestEnemy_def findNearestEnemy_loop.simps queryRadius_def
      insertOrUpdate_def newSpatialHash_def getCellKey_def SPATIAL_HASH_CELL_SIZE_def
      TOWER_RANGE_def distSqTo_def upto.simps Let_def)

subsection \<open>C10: structural consistency of the spatial index\<close>

lemma findIndex_Some: "findIndex P xs = Some i \<Longrightarrow> i < length xs \<and> P (xs ! i)"
  by (induction xs arbitrary: i) (auto split: if_splits option.splits)

lemma findIndex_None: "findIndex P xs = None \<longleftrightarrow> (\<forall>x \<in> set xs. \<not> P x)"
  by (induction xs) (auto split: option.splits)

lemma mset_swap_pop:
  assumes "i < length xs"
  shows "mset (butlast (xs[i := last xs])) = mset xs - {#xs ! i#}"
proof -
  from assms have ne: "xs \<noteq> []" by auto
  then obtain ys z where xs: "xs = ys @ [z]" by (metis append_butlast_last_id)
  show ?thesis
  proof (cases "i < length ys")
    case True
    then show ?thesis by (simp add: xs nth_append mset_update list_update_append1)
  next
    case False
    with assms have "i = length ys" by (simp add: xs)
    then show ?thesis by (simp add: xs)
  qed
qed

lemma entryTotal_update:
  "distinct (map fst al) \<Longrightarrow>
   entryTotal (AList.update k v al) + (case map_of al k of None \<Rightarrow> 0 | Some old \<Rightarrow> length old)
     = entryTotal al + length v"
  by (induction al) (auto simp: entryTotal_def map_of_eq_None_iff image_iff split: option.splits)

lemma entryTotal_delete:
  "distinct (map fst al) \<Longrightarrow> map_of al k = Some old \<Longrightarrow>
   entryTotal (AList.delete k al) + length old = entryTotal al"
proof (induction al)
  case Nil
  then show ?case by simp
next
  case (Cons p ps)
  show ?case
  proof (cases "fst p = k")
    case True
    with Cons.prems have "k \<notin> fst ` set ps" "old = snd p" by auto
    then show ?thesis using True by (simp add: entryTotal_def)
  next
    case False
    with Cons show ?thesis by (simp add: entryTotal_def)
  qed
qed

lemma length_update_alist:
  "length (AList.update k v al) = (if k \<in> fst ` set al then length al else Suc (length al))"
  by (induction al) auto

lemma length_delete_alist:
  "distinct (map fst al) \<Longrightarrow> map_of al k = Some v \<Longrightarrow> Suc (length (AList.delete k al)) = length al"
proof (induction al)
  case Nil
  then show ?case by simp
next
  case (Cons p ps)
  show ?case
  proof (cases "fst p = k")
    case True
    with Cons.prems have "k \<notin> fst ` set ps" by auto
    then show ?thesis using True by simp
  next
    case False
    with Cons show ?thesis by simp
  qed
qed


lemma distinct_map_mset_remove:
  assumes "distinct (map f xs)" and "mset ys = mset xs - {#x#}"
  shows "distinct (map f ys)"
proof -
  have sub: "mset (map f ys) \<subseteq># mset (map f xs)"
    using assms(2) by (simp add: image_mset_subseteq_mono)
  have "count (mset (map f ys)) a = (if a \<in> set (map f ys) then 1 else 0)" for a
  proof -
    have "count (mset (map f ys)) a \<le> count (mset (map f xs)) a"
      using sub by (rule mset_subset_eq_count)
    also have "\<dots> \<le> 1"
    proof -
      from assms(1) have "count (mset (map f xs)) a = (if a \<in> set (map f xs) then 1 else 0)"
        by (simp only: distinct_count_atmost_1)
      then show ?thesis by (simp split: if_splits)
    qed
    finally have le: "count (mset (map f ys)) a \<le> 1" .
    show ?thesis
    proof (cases "a \<in> set (map f ys)")
      case True
      then have "0 < count (mset (map f ys)) a" by (simp only: count_greater_zero_iff set_mset_mset)
      with le have "count (mset (map f ys)) a = 1" by linarith
      with True show ?thesis by (simp only: if_True)
    next
      case False
      then have "count (mset (map f ys)) a = 0" by (simp only: count_eq_zero_iff set_mset_mset not_False_eq_True)
      with False show ?thesis by (simp only: if_False)
    qed
  qed
  then show ?thesis unfolding distinct_count_atmost_1 by blast
qed

lemma mset_remove_not_key:
  assumes "distinct (map f xs)" and "x \<in> set xs" and "mset ys = mset xs - {#x#}"
  shows "f x \<notin> f ` set ys"
proof
  assume "f x \<in> f ` set ys"
  then obtain y where y: "y \<in> set ys" "f y = f x" by auto
  from y(1) assms(3) have yd: "y \<in># mset xs - {#x#}" by (metis set_mset_mset)
  then have yin: "y \<in> set xs" by (metis in_diffD set_mset_mset)
  from assms(1) have dx: "distinct xs" and inj: "inj_on f (set xs)"
    by (simp_all add: distinct_map)
  from inj yin assms(2) y(2) have "y = x" by (auto dest: inj_onD)
  with yd have "x \<in># mset xs - {#x#}" by simp
  moreover from dx have "count (mset xs) x \<le> 1"
    by (simp add: distinct_count_atmost_1)
  ultimately show False by (simp add: in_diff_count)
qed

lemma mset_remove_keeps:
  assumes "e \<in> set xs" and "e \<noteq> x" and "mset ys = mset xs - {#x#}"
  shows "e \<in> set ys"
proof -
  from assms(1,2) have "e \<in># mset xs - {#x#}" by (simp add: in_diff_count)
  with assms(3) show ?thesis by (metis set_mset_mset)
qed

lemma mset_remove_subset:
  assumes "mset ys = mset xs - {#x#}"
  shows "set ys \<subseteq> set xs"
proof
  fix e assume "e \<in> set ys"
  with assms have "e \<in># mset xs - {#x#}" by (metis set_mset_mset)
  then show "e \<in> set xs" by (metis in_diffD set_mset_mset)
qed

lemma mset_remove_length:
  assumes "x \<in> set xs" and "mset ys = mset xs - {#x#}"
  shows "Suc (length ys) = length xs"
proof -
  have "size (mset ys) = size (mset xs) - 1"
    using assms by (simp add: size_Diff_singleton)
  moreover have "xs \<noteq> []" using assms(1) by auto
  ultimately show ?thesis by (cases xs) simp_all
qed

lemma consistent_clear: "consistent (clear sh)"
  by (simp add: consistent_def clear_def entityCount_def entryTotal_def)

lemma consistent_new: "consistent (newSpatialHash cs)"
  by (simp add: consistent_def newSpatialHash_def entityCount_def entryTotal_def)

lemma removeFromCell_fields:
  "cellSize (removeFromCell i k sh) = cellSize sh \<and>
   entityCells (removeFromCell i k sh) = entityCells sh"
  by (simp add: removeFromCell_def Let_def split: option.splits)

lemma removeFromCell_step:
  assumes C: "consistent sh" and T: "map_of (entityCells sh) i = Some k"
  shows "\<exists>es x ys. map_of (cells sh) k = Some es \<and> x \<in> set es \<and> entry_id x = i \<and>
           mset ys = mset es - {#x#} \<and>
           cells (removeFromCell i k sh) =
             (if ys = [] then AList.delete k (cells sh) else AList.update k ys (cells sh))"
proof -
  from C T obtain es where es: "map_of (cells sh) k = Some es" "i \<in> entry_id ` set es"
    unfolding consistent_def by blast
  from es(2) have "findIndex (\<lambda>e. entry_id e = i) es \<noteq> None"
    by (auto simp: findIndex_None)
  then obtain idx where idx: "findIndex (\<lambda>e. entry_id e = i) es = Some idx" by auto
  then have lt: "idx < length es" and eq: "entry_id (es ! idx) = i"
    using findIndex_Some[of "\<lambda>e. entry_id e = i" es idx] by auto
  let ?ys = "butlast (es[idx := last es])"
  have "mset ?ys = mset es - {#es ! idx#}" using lt by (rule mset_swap_pop)
  moreover have "es ! idx \<in> set es" using lt by simp
  moreover have "cells (removeFromCell i k sh) =
             (if ?ys = [] then AList.delete k (cells sh) else AList.update k ?ys (cells sh))"
    using es(1) idx by (simp add: removeFromCell_def Let_def)
  ultimately show ?thesis using es(1) eq by blast
qed

lemma consistent_remove:
  assumes C: "consistent sh"
  shows "consistent (remove i sh)"
proof (cases "map_of (entityCells sh) i")
  case None
  then show ?thesis using C by (simp add: remove_def)
next
  case (Some k)
  let ?sh1 = "removeFromCell i k sh"
  let ?sh2 = "?sh1\<lparr>entityCells := AList.delete i (entityCells ?sh1)\<rparr>"
  have r: "remove i sh = ?sh2" using Some by (simp add: remove_def Let_def)
  from removeFromCell_step[OF C Some] obtain es x ys where
    es: "map_of (cells sh) k = Some es" and x: "x \<in> set es" "entry_id x = i" and
    ys: "mset ys = mset es - {#x#}" and
    cs: "cells ?sh1 = (if ys = [] then AList.delete k (cells sh) else AList.update k ys (cells sh))"
    by blast
  have f: "cellSize ?sh1 = cellSize sh" "entityCells ?sh1 = entityCells sh"
    using removeFromCell_fields[of i k sh] by simp_all
  from C have dc: "distinct (map fst (cells sh))" and de: "distinct (map fst (entityCells sh))"
    and tr: "\<And>j kj. map_of (entityCells sh) j = Some kj \<Longrightarrow>
               \<exists>es. map_of (cells sh) kj = Some es \<and> j \<in> entry_id ` set es"
    and ce: "\<And>k' es'. map_of (cells sh) k' = Some es' \<Longrightarrow>
               es' \<noteq> [] \<and> distinct (map entry_id es') \<and>
               (\<forall>e \<in> set es'. map_of (entityCells sh) (entry_id e) = Some k' \<and>
                   getCellKey sh (entry_x e) (entry_y e) = k')"
    and cnt: "length (entityCells sh) = entryTotal (cells sh)"
    unfolding consistent_def entityCount_def by blast+
  have des: "distinct (map entry_id es)" using ce[OF es] by simp
  have m1: "map_of (cells ?sh1) k' = (if k' = k then (if ys = [] then None else Some ys)
                                      else map_of (cells sh) k')" for k'
    by (simp add: cs AList.update_conv' AList.delete_conv')
  have ysub: "set ys \<subseteq> set es" using ys by (rule mset_remove_subset)
  have ynot: "i \<notin> entry_id ` set ys" using mset_remove_not_key[OF des x(1) ys] x(2) by simp
  have ydist: "distinct (map entry_id ys)" using des ys by (rule distinct_map_mset_remove)
  have ylen: "Suc (length ys) = length es" using x(1) ys by (rule mset_remove_length)
  have gk: "getCellKey ?sh2 = getCellKey sh" by (simp add: getCellKey_def fun_eq_iff f)
  have c1: "distinct (map fst (cells ?sh2))"
    using dc by (simp add: cs AList.distinct_update AList.distinct_delete)
  have c2: "distinct (map fst (entityCells ?sh2))"
    using de by (simp add: f AList.distinct_delete)
  have c3: "\<exists>es. map_of (cells ?sh2) kj = Some es \<and> j \<in> entry_id ` set es"
    if "map_of (entityCells ?sh2) j = Some kj" for j kj
  proof -
    from that have ji: "j \<noteq> i" and jk: "map_of (entityCells sh) j = Some kj"
      by (auto simp: f AList.delete_conv' split: if_splits)
    from tr[OF jk] obtain es' e where e: "map_of (cells sh) kj = Some es'" "e \<in> set es'" "entry_id e = j"
      by auto
    show ?thesis
    proof (cases "kj = k")
      case True
      with e es have "es' = es" by simp
      with e ji x have "e \<in> set ys" using mset_remove_keeps[of e es x ys] ys by auto
      then have "ys \<noteq> []" by auto
      with \<open>e \<in> set ys\<close> e(3) True show ?thesis by (auto simp: m1)
    next
      case False
      with e show ?thesis by (auto simp: m1)
    qed
  qed
  have c4: "es' \<noteq> [] \<and> distinct (map entry_id es') \<and>
               (\<forall>e \<in> set es'. map_of (entityCells ?sh2) (entry_id e) = Some k' \<and>
                   getCellKey ?sh2 (entry_x e) (entry_y e) = k')"
    if "map_of (cells ?sh2) k' = Some es'" for k' es'
  proof (cases "k' = k")
    case True
    with that have e': "es' = ys" "ys \<noteq> []" by (auto simp: m1 split: if_splits)
    have "map_of (entityCells ?sh2) (entry_id e) = Some k' \<and>
                   getCellKey ?sh2 (entry_x e) (entry_y e) = k'" if "e \<in> set ys" for e
    proof -
      from that ysub have "e \<in> set es" by auto
      with ce[OF es] have "map_of (entityCells sh) (entry_id e) = Some k"
         "getCellKey sh (entry_x e) (entry_y e) = k" by auto
      moreover from that ynot have "entry_id e \<noteq> i" by auto
      ultimately show ?thesis using True by (simp add: getCellKey_def f AList.delete_conv')
    qed
    with e' ydist show ?thesis by auto
  next
    case False
    with that have o: "map_of (cells sh) k' = Some es'" by (simp add: m1)
    have "entry_id e \<noteq> i" if "e \<in> set es'" for e
    proof
      assume "entry_id e = i"
      with ce[OF o] that have "map_of (entityCells sh) i = Some k'" by auto
      with Some False show False by simp
    qed
    with ce[OF o] show ?thesis by (auto simp: getCellKey_def f AList.delete_conv')
  qed
  have c5: "entityCount ?sh2 = entryTotal (cells ?sh2)"
  proof -
    have "Suc (length (AList.delete i (entityCells sh))) = length (entityCells sh)"
      using de Some by (rule length_delete_alist)
    moreover have "Suc (entryTotal (cells ?sh1)) = entryTotal (cells sh)"
    proof (cases "ys = []")
      case True
      with ylen have "length es = 1" by simp
      with entryTotal_delete[OF dc es] True show ?thesis by (simp add: cs)
    next
      case False
      with entryTotal_update[OF dc, of k ys] es ylen show ?thesis by (simp add: cs)
    qed
    ultimately show ?thesis using cnt by (simp add: entityCount_def f)
  qed
  show ?thesis unfolding r consistent_def using c1 c2 c3 c4 c5 by blast
qed

lemma consistent_insert_fresh:
  assumes C: "consistent sh"
    and U: "map_of (entityCells sh) (entry_id entry) = None"
    and K: "newKey = getCellKey sh (entry_x entry) (entry_y entry)"
    and D: "distinct (map fst ec2)"
    and M: "map_of ec2 = (map_of (entityCells sh))(entry_id entry \<mapsto> newKey)"
    and L: "length ec2 = Suc (length (entityCells sh))"
  shows "consistent (sh\<lparr>cells := AList.update newKey
            ((case map_of (cells sh) newKey of Some c \<Rightarrow> c | None \<Rightarrow> []) @ [entry]) (cells sh),
          entityCells := ec2\<rparr>)"
proof -
  define cell where "cell = (case map_of (cells sh) newKey of Some c \<Rightarrow> c | None \<Rightarrow> [])"
  define sh2 where "sh2 = sh\<lparr>cells := AList.update newKey (cell @ [entry]) (cells sh),
          entityCells := ec2\<rparr>"
  let ?i = "entry_id entry"
  from C have dc: "distinct (map fst (cells sh))"
    and tr: "\<And>j kj. map_of (entityCells sh) j = Some kj \<Longrightarrow>
               \<exists>es. map_of (cells sh) kj = Some es \<and> j \<in> entry_id ` set es"
    and ce: "\<And>k' es'. map_of (cells sh) k' = Some es' \<Longrightarrow>
               es' \<noteq> [] \<and> distinct (map entry_id es') \<and>
               (\<forall>e \<in> set es'. map_of (entityCells sh) (entry_id e) = Some k' \<and>
                   getCellKey sh (entry_x e) (entry_y e) = k')"
    and cnt: "length (entityCells sh) = entryTotal (cells sh)"
    unfolding consistent_def entityCount_def by blast+
  have m2: "map_of (cells sh2) k' = (if k' = newKey then Some (cell @ [entry])
                                      else map_of (cells sh) k')" for k'
    by (simp add: sh2_def AList.update_conv')
  have e2: "entityCells sh2 = ec2" and s2: "cellSize sh2 = cellSize sh"
    by (simp_all add: sh2_def)
  have celld: "distinct (map entry_id cell)"
    using ce[of newKey] by (cases "map_of (cells sh) newKey") (simp_all add: cell_def)
  have cellp: "map_of (entityCells sh) (entry_id e) = Some newKey \<and>
                   getCellKey sh (entry_x e) (entry_y e) = newKey" if "e \<in> set cell" for e
    using ce[of newKey] that by (cases "map_of (cells sh) newKey") (simp_all add: cell_def)
  have fresh: "entry_id e \<noteq> ?i" if "map_of (cells sh) k' = Some es'" "e \<in> set es'" for k' es' e
  proof
    assume "entry_id e = ?i"
    with ce[OF that(1)] that(2) have "map_of (entityCells sh) ?i = Some k'" by auto
    with U show False by simp
  qed
  have freshcell: "entry_id e \<noteq> ?i" if "e \<in> set cell" for e
    using cellp[OF that] U by auto
  have c1: "distinct (map fst (cells sh2))"
    using dc by (simp add: sh2_def AList.distinct_update)
  have c2: "distinct (map fst (entityCells sh2))"
    using D by (simp add: e2)
  have c3: "\<exists>es. map_of (cells sh2) kj = Some es \<and> j \<in> entry_id ` set es"
    if "map_of (entityCells sh2) j = Some kj" for j kj
  proof (cases "j = ?i")
    case True
    with that M have "kj = newKey" by (simp add: e2)
    with True show ?thesis by (simp add: m2)
  next
    case False
    with that M have "map_of (entityCells sh) j = Some kj" by (simp add: e2)
    from tr[OF this] obtain es where es: "map_of (cells sh) kj = Some es" "j \<in> entry_id ` set es"
      by blast
    show ?thesis
    proof (cases "kj = newKey")
      case True
      with es have "cell = es" by (simp add: cell_def)
      with es True show ?thesis by (auto simp: m2)
    next
      case False
      with es show ?thesis by (simp add: m2)
    qed
  qed
  have c4: "es' \<noteq> [] \<and> distinct (map entry_id es') \<and>
               (\<forall>e \<in> set es'. map_of (entityCells sh2) (entry_id e) = Some k' \<and>
                   getCellKey sh2 (entry_x e) (entry_y e) = k')"
    if "map_of (cells sh2) k' = Some es'" for k' es'
  proof (cases "k' = newKey")
    case True
    with that have e': "es' = cell @ [entry]" by (simp add: m2)
    have "?i \<notin> entry_id ` set cell"
    proof
      assume "?i \<in> entry_id ` set cell"
      then obtain e where "e \<in> set cell" "entry_id e = ?i" by force
      with freshcell show False by blast
    qed
    with celld have "distinct (map entry_id (cell @ [entry]))" by simp
    moreover have "map_of ec2 (entry_id e) = Some newKey \<and>
                   getCellKey sh (entry_x e) (entry_y e) = newKey"
      if "e \<in> set (cell @ [entry])" for e
    proof -
      from that have "e = entry \<or> e \<in> set cell" by auto
      then show ?thesis
      proof
        assume "e = entry"
        then show ?thesis using K M by simp
      next
        assume a: "e \<in> set cell"
        with cellp[OF a] freshcell[OF a] M show ?thesis by simp
      qed
    qed
    ultimately show ?thesis using True e' by (simp add: getCellKey_def e2 s2)
  next
    case False
    with that have o: "map_of (cells sh) k' = Some es'" by (simp add: m2)
    have "map_of ec2 (entry_id e) = Some k' \<and> getCellKey sh (entry_x e) (entry_y e) = k'"
      if "e \<in> set es'" for e
      using ce[OF o] fresh[OF o that] that M by simp
    with ce[OF o] show ?thesis by (simp add: getCellKey_def e2 s2)
  qed
  have c5: "entityCount sh2 = entryTotal (cells sh2)"
  proof -
    have "entryTotal (cells sh2) = Suc (entryTotal (cells sh))"
      using entryTotal_update[OF dc, of newKey "cell @ [entry]"]
      by (cases "map_of (cells sh) newKey") (simp_all add: sh2_def cell_def)
    then show ?thesis using cnt L by (simp add: entityCount_def e2)
  qed
  have "consistent sh2" unfolding consistent_def using c1 c2 c3 c4 c5 by blast
  then show ?thesis by (simp add: sh2_def cell_def)
qed

lemma consistent_update_in_place:
  assumes C: "consistent sh"
    and T: "map_of (entityCells sh) (entry_id entry) = Some newKey"
    and K: "newKey = getCellKey sh (entry_x entry) (entry_y entry)"
    and cell: "map_of (cells sh) newKey = Some cell"
    and idx: "findIndex (\<lambda>e. entry_id e = entry_id entry) cell = Some idx"
  shows "consistent (sh\<lparr>cells := AList.update newKey (cell[idx := entry]) (cells sh)\<rparr>)"
    (is "consistent ?sh2")
proof -
  from C have dc: "distinct (map fst (cells sh))" and de: "distinct (map fst (entityCells sh))"
    and tr: "\<And>j kj. map_of (entityCells sh) j = Some kj \<Longrightarrow>
               \<exists>es. map_of (cells sh) kj = Some es \<and> j \<in> entry_id ` set es"
    and ce: "\<And>k' es'. map_of (cells sh) k' = Some es' \<Longrightarrow>
               es' \<noteq> [] \<and> distinct (map entry_id es') \<and>
               (\<forall>e \<in> set es'. map_of (entityCells sh) (entry_id e) = Some k' \<and>
                   getCellKey sh (entry_x e) (entry_y e) = k')"
    and cnt: "length (entityCells sh) = entryTotal (cells sh)"
    unfolding consistent_def entityCount_def by blast+
  from idx have lt: "idx < length cell" and eq: "entry_id (cell ! idx) = entry_id entry"
    using findIndex_Some[of "\<lambda>e. entry_id e = entry_id entry" cell idx] by auto
  have ids: "map entry_id (cell[idx := entry]) = map entry_id cell"
    using lt eq by (simp add: map_update list_update_same_conv)
  have m2: "map_of (cells ?sh2) k' = (if k' = newKey then Some (cell[idx := entry])
                                      else map_of (cells sh) k')" for k'
    by (simp add: AList.update_conv')
  have c1: "distinct (map fst (cells ?sh2))"
    using dc by (simp add: AList.distinct_update)
  have c2: "distinct (map fst (entityCells ?sh2))"
    using de by simp
  have c3: "\<exists>es. map_of (cells ?sh2) kj = Some es \<and> j \<in> entry_id ` set es"
    if "map_of (entityCells ?sh2) j = Some kj" for j kj
  proof -
    from that have "map_of (entityCells sh) j = Some kj" by simp
    from tr[OF this] obtain es where es: "map_of (cells sh) kj = Some es" "j \<in> entry_id ` set es"
      by blast
    show ?thesis
    proof (cases "kj = newKey")
      case True
      with es cell have "j \<in> set (map entry_id cell)" by simp
      then have "j \<in> set (map entry_id (cell[idx := entry]))" by (simp only: ids)
      then show ?thesis using True by (simp add: AList.update_conv')
    next
      case False
      with es show ?thesis by (auto simp: AList.update_conv')
    qed
  qed
  have c4: "es' \<noteq> [] \<and> distinct (map entry_id es') \<and>
               (\<forall>e \<in> set es'. map_of (entityCells ?sh2) (entry_id e) = Some k' \<and>
                   getCellKey ?sh2 (entry_x e) (entry_y e) = k')"
    if "map_of (cells ?sh2) k' = Some es'" for k' es'
  proof (cases "k' = newKey")
    case True
    with that have e': "es' = cell[idx := entry]" by (simp add: AList.update_conv')
    have "distinct (map entry_id (cell[idx := entry]))"
      using ce[OF cell] by (simp only: ids)
    moreover have "cell[idx := entry] \<noteq> []" using lt by auto
    moreover have "map_of (entityCells sh) (entry_id e) = Some newKey \<and>
                   getCellKey sh (entry_x e) (entry_y e) = newKey"
      if "e \<in> set (cell[idx := entry])" for e
    proof -
      from that have "e = entry \<or> e \<in> set cell"
        using set_update_subset_insert[of cell idx entry] by auto
      then show ?thesis using ce[OF cell] T K by auto
    qed
    ultimately show ?thesis using True e' by (simp add: getCellKey_def)
  next
    case False
    with that have o: "map_of (cells sh) k' = Some es'" by (simp add: AList.update_conv')
    with ce[OF o] show ?thesis by (auto simp: getCellKey_def)
  qed
  have c5: "entityCount ?sh2 = entryTotal (cells ?sh2)"
    using entryTotal_update[OF dc, of newKey "cell[idx := entry]"] cell cnt
    by (simp add: entityCount_def)
  show ?thesis unfolding consistent_def using c1 c2 c3 c4 c5 by blast
qed

lemma consistent_insertOrUpdate:
  assumes C: "consistent sh"
  shows "consistent (insertOrUpdate entry sh)"
proof -
  let ?newKey = "getCellKey sh (entry_x entry) (entry_y entry)"
  let ?i = "entry_id entry"
  show ?thesis
  proof (cases "map_of (entityCells sh) ?i = Some ?newKey")
    case True
    from C True obtain cell where cell: "map_of (cells sh) ?newKey = Some cell"
       "?i \<in> entry_id ` set cell"
      unfolding consistent_def by blast
    from cell(2) have "findIndex (\<lambda>e. entry_id e = ?i) cell \<noteq> None"
      by (auto simp: findIndex_None)
    then obtain idx where idx: "findIndex (\<lambda>e. entry_id e = ?i) cell = Some idx" by auto
    have "insertOrUpdate entry sh = sh\<lparr>cells := AList.update ?newKey (cell[idx := entry]) (cells sh)\<rparr>"
      using True cell(1) idx by (simp add: insertOrUpdate_def Let_def)
    then show ?thesis using consistent_update_in_place[OF C True refl cell(1) idx] by simp
  next
    case False
    show ?thesis
    proof (cases "map_of (entityCells sh) ?i")
      case None
      have r: "insertOrUpdate entry sh = sh\<lparr>cells := AList.update ?newKey
            ((case map_of (cells sh) ?newKey of Some c \<Rightarrow> c | None \<Rightarrow> []) @ [entry]) (cells sh),
          entityCells := AList.update ?i ?newKey (entityCells sh)\<rparr>"
        using None by (simp add: insertOrUpdate_def Let_def)
      from C have de: "distinct (map fst (entityCells sh))" unfolding consistent_def by blast
      have notin: "?i \<notin> fst ` set (entityCells sh)"
        using None by (simp add: map_of_eq_None_iff)
      show ?thesis unfolding r
        by (rule consistent_insert_fresh[OF C None refl])
           (simp_all add: AList.distinct_update de AList.update_conv' length_update_alist notin)
    next
      case (Some k)
      let ?sh1 = "removeFromCell ?i k sh"
      let ?shr = "remove ?i sh"
      have f: "cellSize ?sh1 = cellSize sh" "entityCells ?sh1 = entityCells sh"
        using removeFromCell_fields[of ?i k sh] by simp_all
      have shr: "?shr = ?sh1\<lparr>entityCells := AList.delete ?i (entityCells sh)\<rparr>"
        using Some by (simp add: remove_def Let_def f)
      have r: "insertOrUpdate entry sh = ?shr\<lparr>cells := AList.update ?newKey
            ((case map_of (cells ?shr) ?newKey of Some c \<Rightarrow> c | None \<Rightarrow> []) @ [entry]) (cells ?shr),
          entityCells := AList.update ?i ?newKey (entityCells sh)\<rparr>"
        using Some False by (simp add: shr insertOrUpdate_def Let_def f getCellKey_def)
      have Cr: "consistent ?shr" using C by (rule consistent_remove)
      from C have de: "distinct (map fst (entityCells sh))" unfolding consistent_def by blast
      have isin: "?i \<in> fst ` set (entityCells sh)"
        using Some by (metis map_of_eq_None_iff option.distinct(1))
      have k: "?newKey = getCellKey ?shr (entry_x entry) (entry_y entry)"
        by (simp add: shr getCellKey_def f)
      have len: "Suc (length (AList.delete ?i (entityCells sh))) = length (entityCells sh)"
        using de Some by (rule length_delete_alist)
      show ?thesis unfolding r
        by (rule consistent_insert_fresh[OF Cr _ k])
           (simp_all add: shr AList.distinct_update de AList.update_conv' AList.delete_conv'
              length_update_alist isin len)
    qed
  qed
qed

lemma consistent_applyOp: "consistent sh \<Longrightarrow> consistent (applyOp sh op)"
  by (cases op) (simp_all add: consistent_clear consistent_insertOrUpdate consistent_remove)

lemma consistent_foldl: "consistent sh \<Longrightarrow> consistent (foldl applyOp sh ops)"
  by (induction ops arbitrary: sh) (simp_all add: consistent_applyOp)

lemma filter_key_once:
  "distinct (map f xs) \<Longrightarrow> x \<in> set xs \<Longrightarrow> length (filter (\<lambda>e. f e = f x) xs) = 1"
proof (induction xs)
  case Nil
  then show ?case by simp
next
  case (Cons a xs)
  show ?case
  proof (cases "f a = f x")
    case True
    from Cons.prems have "f a \<notin> f ` set xs" by simp
    with True have "\<forall>e \<in> set xs. f e \<noteq> f x" by (metis imageI)
    then have "filter (\<lambda>e. f e = f x) xs = []" by (simp add: filter_empty_conv)
    with True show ?thesis by simp
  next
    case False
    with Cons show ?thesis by auto
  qed
qed

lemma consistent_structurallyConsistent:
  assumes C: "consistent sh"
  shows "structurallyConsistent sh"
proof -
  from C have tr: "\<And>j kj. map_of (entityCells sh) j = Some kj \<Longrightarrow>
               \<exists>es. map_of (cells sh) kj = Some es \<and> j \<in> entry_id ` set es"
    and ce: "\<And>k' es'. map_of (cells sh) k' = Some es' \<Longrightarrow>
               es' \<noteq> [] \<and> distinct (map entry_id es') \<and>
               (\<forall>e \<in> set es'. map_of (entityCells sh) (entry_id e) = Some k' \<and>
                   getCellKey sh (entry_x e) (entry_y e) = k')"
    and cnt: "entityCount sh = entryTotal (cells sh)"
    unfolding consistent_def by blast+
  have a: "(\<exists>es. map_of (cells sh) k = Some es \<and>
              length (filter (\<lambda>e. entry_id e = i) es) = 1 \<and>
              (\<forall>e \<in> set es. entry_id e = i \<longrightarrow> getCellKey sh (entry_x e) (entry_y e) = k)) \<and>
        (\<forall>k' es'. map_of (cells sh) k' = Some es' \<and> k' \<noteq> k \<longrightarrow> i \<notin> entry_id ` set es')"
    if T: "map_of (entityCells sh) i = Some k" for i k
  proof -
    from tr[OF T] obtain es x where es: "map_of (cells sh) k = Some es" "x \<in> set es" "entry_id x = i"
      by auto
    from ce[OF es(1)] have d: "distinct (map entry_id es)" by simp
    have "length (filter (\<lambda>e. entry_id e = entry_id x) es) = 1"
      using d es(2) by (rule filter_key_once)
    then have one: "length (filter (\<lambda>e. entry_id e = i) es) = 1" by (simp only: es(3))
    have key: "\<forall>e \<in> set es. entry_id e = i \<longrightarrow> getCellKey sh (entry_x e) (entry_y e) = k"
      using ce[OF es(1)] by simp
    have other: "i \<notin> entry_id ` set es'" if o: "map_of (cells sh) k' = Some es'" "k' \<noteq> k" for k' es'
    proof
      assume "i \<in> entry_id ` set es'"
      then obtain e where "e \<in> set es'" "entry_id e = i" by force
      with ce[OF o(1)] have "map_of (entityCells sh) i = Some k'" by auto
      with T o(2) show False by simp
    qed
    from es(1) one key other show ?thesis by blast
  qed
  have b: "\<forall>k es. map_of (cells sh) k = Some es \<longrightarrow> es \<noteq> []" using ce by blast
  show ?thesis unfolding structurallyConsistent_def using a b cnt by blast
qed

text \<open>
  C10. Starting from a freshly constructed index with a non-zero cell size, after any
  sequence of \<open>clear\<close>, \<open>insertOrUpdate\<close> and \<open>remove\<close> the index is structurally
  consistent: every tracked entity id appears exactly once, in exactly one cell list, the
  one whose key is the cell key of the stored coordinates; \<open>entityCount\<close> equals the
  number of stored entries; no cell holds an empty list.
\<close>

theorem spatialHash_structurally_consistent:
  "cs \<noteq> 0 \<Longrightarrow> structurallyConsistent (runOps (newSpatialHash cs) ops)"
  unfolding runOps_def
  by (intro consistent_structurallyConsistent consistent_foldl consistent_new)

theorem spatialHash_structurally_consistent_witness:
  "(8::real) \<noteq> 0 \<and>
   runOps (newSpatialHash 8)
     [OpInsertOrUpdate \<lparr>entry_id = ''a'', entry_x = 1, entry_y = 1, entry_ownerId = ''p''\<rparr>,
      OpInsertOrUpdate \<lparr>entry_id = ''b'', entry_x = 9, entry_y = 1, entry_ownerId = ''q''\<rparr>,
      OpInsertOrUpdate \<lparr>entry_id = ''c'', entry_x = 2, entry_y = 3, entry_ownerId = ''q''\<rparr>,
      OpInsertOrUpdate \<lparr>entry_id = ''a'', entry_x = 10, entry_y = 2, entry_ownerId = ''p''\<rparr>,
      OpRemove ''b'']
   = \<lparr>cellSize = 8,
      cells = [((0, 0), [\<lparr>entry_id = ''c'', entry_x = 2, entry_y = 3, entry_ownerId = ''q''\<rparr>]),
               ((1, 0), [\<lparr>entry_id = ''a'', entry_x = 10, entry_y = 2, entry_ownerId = ''p''\<rparr>])],
      entityCells = [(''a'', (1, 0)), (''c'', (0, 0))]\<rparr> \<and>
   structurallyConsistent (runOps (newSpatialHash 8)
     [OpInsertOrUpdate \<lparr>entry_id = ''a'', entry_x = 1, entry_y = 1, entry_ownerId = ''p''\<rparr>,
      OpInsertOrUpdate \<lparr>entry_id = ''b'', entry_x = 9, entry_y = 1, entry_ownerId = ''q''\<rparr>,
      OpInsertOrUpdate \<lparr>entry_id = ''c'', entry_x = 2, entry_y = 3, entry_ownerId = ''q''\<rparr>,
      OpInsertOrUpdate \<lparr>entry_id = ''a'', entry_x = 10, entry_y = 2, entry_ownerId = ''p''\<rparr>,
      OpRemove ''b''])"
proof -
  have nz: "(8::real) \<noteq> 0" by simp
  have run: "runOps (newSpatialHash 8)
     [OpInsertOrUpdate \<lparr>entry_id = ''a'', entry_x = 1, entry_y = 1, entry_ownerId = ''p''\<rparr>,
      OpInsertOrUpdate \<lparr>entry_id = ''b'', entry_x = 9, entry_y = 1, entry_ownerId = ''q''\<rparr>,
      OpInsertOrUpdate \<lparr>entry_id = ''c'', entry_x = 2, entry_y = 3, entry_ownerId = ''q''\<rparr>,
      OpInsertOrUpdate \<lparr>entry_id = ''a'', entry_x = 10, entry_y = 2, entry_ownerId = ''p''\<rparr>,
      OpRemove ''b'']
   = \<lparr>cellSize = 8,
      cells = [((0, 0), [\<lparr>entry_id = ''c'', entry_x = 2, entry_y = 3, entry_ownerId = ''q''\<rparr>]),
               ((1, 0), [\<lparr>entry_id = ''a'', entry_x = 10, entry_y = 2, entry_ownerId = ''p''\<rparr>])],
      entityCells = [(''a'', (1, 0)), (''c'', (0, 0))]\<rparr>"
    by (simp add: runOps_def newSpatialHash_def insertOrUpdate_def remove_def removeFromCell_def
        getCellKey_def Let_def)
  have sc: "structurallyConsistent (runOps (newSpatialHash 8)
     [OpInsertOrUpdate \<lparr>entry_id = ''a'', entry_x = 1, entry_y = 1, entry_ownerId = ''p''\<rparr>,
      OpInsertOrUpdate \<lparr>entry_id = ''b'', entry_x = 9, entry_y = 1, entry_ownerId = ''q''\<rparr>,
      OpInsertOrUpdate \<lparr>entry_id = ''c'', entry_x = 2, entry_y = 3, entry_ownerId = ''q''\<rparr>,
      OpInsertOrUpdate \<lparr>entry_id = ''a'', entry_x = 10, entry_y = 2, entry_ownerId = ''p''\<rparr>,
      OpRemove ''b''])"
    by (rule spatialHash_structurally_consistent[OF nz])
  show ?thesis by (intro conjI nz run sc)
qed

subsection \<open>C7: joining a match\<close>

text \<open>
  C7 (as amended). \<open>addPlayer\<close> returns a boolean: \<open>true\<close> exactly when the roster holds
  fewer than twenty contestants and the id is not yet present, and then the new
  contestant is appended to the roster; \<open>false\<close> otherwise, leaving the match unchanged.
\<close>

theorem addPlayer_boolean_outcome:
  "(fst (addPlayer playerId uname s) \<longleftrightarrow>
      length (players s) < MAX_PLAYERS \<and> map_of (players s) playerId = None)
   \<and> (\<not> fst (addPlayer playerId uname s) \<longrightarrow> snd (addPlayer playerId uname s) = s)
   \<and> (fst (addPlayer playerId uname s) \<longrightarrow>
        players (snd (addPlayer playerId uname s)) =
          players s @ [(playerId,
            \<lparr>player_id = playerId, username = uname, isBot = False, gold = STARTING_GOLD,
             goldPerSecond = 0, territoryCount = 0, capitalX = - 1, capitalY = - 1,
             color = PLAYER_COLORS ! (length (players s) mod length PLAYER_COLORS),
             alive = True, score = 0, player_connected = True, spawnSelected = False\<rparr>)])"
proof -
  have upd: "AList.update k v al = al @ [(k, v)]" if "map_of al k = None" for k :: PlayerId and v :: Player and al
    using that by (induction al) (auto split: if_splits)
  show ?thesis
    by (auto simp: addPlayer_def Let_def upd)
qed

theorem addPlayer_boolean_outcome_witness:
  "fst (addPlayer ''u'' ''Una'' (rosterOf [''a'', ''b''])) \<and>
   map (fst) (players (snd (addPlayer ''u'' ''Una'' (rosterOf [''a'', ''b''])))) = [''a'', ''b'', ''u''] \<and>
   \<not> fst (addPlayer ''a'' ''Al'' (rosterOf [''a'', ''b''])) \<and>
   snd (addPlayer ''a'' ''Al'' (rosterOf [''a'', ''b''])) = rosterOf [''a'', ''b'']"
proof -
  have r: "length (players (rosterOf [''a'', ''b''])) < MAX_PLAYERS"
      "map_of (players (rosterOf [''a'', ''b''])) ''u'' = None"
      "map_of (players (rosterOf [''a'', ''b''])) ''a'' \<noteq> None"
      "map fst (players (rosterOf [''a'', ''b''])) = [''a'', ''b'']"
    by (simp_all add: rosterOf_def MAX_PLAYERS_def)
  from addPlayer_boolean_outcome[of "''u''" "''Una''" "rosterOf [''a'', ''b'']"] r
  have 1: "fst (addPlayer ''u'' ''Una'' (rosterOf [''a'', ''b'']))"
    and 2: "map (fst) (players (snd (addPlayer ''u'' ''Una'' (rosterOf [''a'', ''b''])))) = [''a'', ''b'', ''u'']"
    by simp_all
  from addPlayer_boolean_outcome[of "''a''" "''Al''" "rosterOf [''a'', ''b'']"] r
  have 3: "\<not> fst (addPlayer ''a'' ''Al'' (rosterOf [''a'', ''b'']))"
    and 4: "snd (addPlayer ''a'' ''Al'' (rosterOf [''a'', ''b''])) = rosterOf [''a'', ''b'']"
    by simp_all
  from 1 2 3 4 show ?thesis by simp
qed

text \<open>
  C7 as stated asks for a result that tells a full roster from a duplicate id. Both
  failures return the same \<open>false\<close>.
\<close>

theorem addPlayer_full_and_duplicate_indistinguishable:
  "length (players (rosterOf twentyIds)) = MAX_PLAYERS
   \<and> map_of (players (rosterOf twentyIds)) ''z'' = None
   \<and> length (players (rosterOf [''a''])) < MAX_PLAYERS
   \<and> map_of (players (rosterOf [''a''])) ''a'' \<noteq> None
   \<and> fst (addPlayer ''z'' ''Zed'' (rosterOf twentyIds)) = False
   \<and> fst (addPlayer ''a'' ''Al'' (rosterOf [''a''])) = False"
  by (simp add: rosterOf_def twentyIds_def addPlayer_def MAX_PLAYERS_def Let_def)

subsection \<open>C8: income and territory\<close>

lemma incomeMultiplier_strict_antimono:
  assumes "t1 < t2"
  shows "incomeMultiplier t2 < incomeMultiplier t1"
proof -
  have "real t1 / 50 < real t2 / 50" using assms by simp
  moreover have "0 \<le> real t1 / 50" by simp
  ultimately have "(real t1 / 50) powr 1.2 < (real t2 / 50) powr 1.2"
    by (intro powr_less_mono2) simp_all
  moreover have "0 \<le> (real t1 / 50) powr 1.2" by simp
  ultimately show ?thesis
    unfolding incomeMultiplier_def EXPANSION_PENALTY_DIVISOR_def EXPANSION_PENALTY_EXPONENT_def
    by (intro divide_strict_left_mono) (simp_all add: add_pos_nonneg)
qed

text \<open>
  C8 (as amended). Holding a contestant's raw income fixed at a positive value, the
  per-second income the economy step computes is strictly decreasing in the territory
  count, because the multiplier \<open>1/(1+(territory/50)^1.2)\<close> is.
\<close>

theorem income_decreasing_in_territory:
  "0 < baseIncome \<Longrightarrow> t1 < t2 \<Longrightarrow>
     goldPerSecondOf baseIncome t2 < goldPerSecondOf baseIncome t1
     \<and> incomeMultiplier t2 < incomeMultiplier t1"
  unfolding goldPerSecondOf_def
  by (simp add: incomeMultiplier_strict_antimono)

theorem income_decreasing_in_territory_witness:
  "(0::real) < 1 \<and> (0::nat) < 50 \<and> goldPerSecondOf 1 50 = 1 / 2 \<and> goldPerSecondOf 1 0 = 1
   \<and> goldPerSecondOf 1 50 < goldPerSecondOf 1 0"
proof -
  have a: "(0::real) < 1" and b: "(0::nat) < 50" by simp_all
  have c: "goldPerSecondOf 1 50 = 1 / 2" "goldPerSecondOf 1 0 = 1"
    by (simp_all add: goldPerSecondOf_def incomeMultiplier_def EXPANSION_PENALTY_DIVISOR_def
        EXPANSION_PENALTY_EXPONENT_def)
  from income_decreasing_in_territory[OF a b] have "goldPerSecondOf 1 50 < goldPerSecondOf 1 0"
    by simp
  with a b c show ?thesis by simp
qed

text \<open>
  C8 as stated fails for a raw income of zero (a contestant all of whose tiles are
  disconnected): the income is zero at every territory count.
\<close>

theorem income_zero_raw_counterexample:
  "\<not> (goldPerSecondOf 0 2 < goldPerSecondOf 0 1)"
  by (simp add: goldPerSecondOf_def)

subsection \<open>C9: squad speed\<close>

lemma tileAt_wellFormed:
  assumes "wellFormedMap m"
  shows "(tileAt m x y \<noteq> None) \<longleftrightarrow> (0 \<le> x \<and> x < width m \<and> 0 \<le> y \<and> y < height m)"
proof (cases "0 \<le> y \<and> y < height m")
  case True
  with assms have "nat y < length (tiles m)" by (simp add: wellFormedMap_def)
  then have "tiles m ! nat y \<in> set (tiles m)" by simp
  with assms have "length (tiles m ! nat y) = nat (width m)"
    by (simp add: wellFormedMap_def list_all_iff)
  with True assms show ?thesis by (auto simp: tileAt_def wellFormedMap_def)
next
  case False
  with assms show ?thesis by (auto simp: tileAt_def wellFormedMap_def)
qed

lemma slowestSpeed_Finite:
  "slowestSpeed (Finite a) us = Finite (fold min (map unitSpeed us) a)"
proof (induction us arbitrary: a)
  case Nil
  then show ?case by simp
next
  case (Cons u us)
  then show ?case by (simp add: unitSpeed_def min_def)
qed

lemma slowestSpeed_Min:
  assumes "us \<noteq> []"
  shows "slowestSpeed PlusInfinity us = Finite (Min (unitSpeed ` set us))"
proof -
  from assms obtain u rest where us: "us = u # rest" by (cases us) auto
  have "slowestSpeed PlusInfinity us = Finite (fold min (map unitSpeed rest) (unitSpeed u))"
    by (simp add: us slowestSpeed_Finite unitSpeed_def)
  also have "fold min (map unitSpeed rest) (unitSpeed u) = Min (set (unitSpeed u # map unitSpeed rest))"
    by (simp only: Min.set_eq_fold)
  finally show ?thesis by (simp add: us)
qed

text \<open>
  C9 (as amended). For a squad with at least one unit on a well-formed map,
  \<open>getSquadSpeed\<close> is the minimum base speed of its units times the product of the
  terrain factor (0.6 on forest, 0.4 on water, 1 otherwise) and the road factor (1.5 on a
  road, 1 otherwise) of the tile under the squad; off the map the modifier is 1.
\<close>

theorem squad_speed_is_slowest_times_terrain:
  assumes "wellFormedMap (gameMap s)" and "units squad \<noteq> []"
  shows "getSquadSpeed s squad =
           Inr (Finite (Min (unitSpeed ` set (units squad))
                        * (case tileAt (gameMap s) (round (squad_x squad)) (round (squad_y squad)) of
                             None \<Rightarrow> 1
                           | Some tile \<Rightarrow> terrainFactor tile)))"
proof (cases "tileAt (gameMap s) (round (squad_x squad)) (round (squad_y squad))")
  case None
  with tileAt_wellFormed[OF assms(1), of "round (squad_x squad)" "round (squad_y squad)"]
  have "\<not> (0 \<le> round (squad_x squad) \<and> round (squad_x squad) < width (gameMap s)
           \<and> 0 \<le> round (squad_y squad) \<and> round (squad_y squad) < height (gameMap s))"
    by simp
  then show ?thesis using assms(2) None
    by (auto simp: getSquadSpeed_def Let_def slowestSpeed_Min)
next
  case (Some tile)
  with tileAt_wellFormed[OF assms(1), of "round (squad_x squad)" "round (squad_y squad)"]
  have "0 \<le> round (squad_x squad) \<and> round (squad_x squad) < width (gameMap s)
           \<and> 0 \<le> round (squad_y squad) \<and> round (squad_y squad) < height (gameMap s)"
    by simp
  then show ?thesis using assms(2) Some
    by (simp add: getSquadSpeed_def Let_def slowestSpeed_Min terrainFactor_def)
qed

theorem squad_speed_is_slowest_times_terrain_witness:
  "wellFormedMap (gameMap forestRoadMatch) \<and> units (squadAt ''s1'' ''a'' 0 0 [militia ''u1'', \<lparr>unit_id = ''u2'', unit_type = SiegeRam, unit_hp = 200, unit_maxHp = 200\<rparr>]) \<noteq> []
   \<and> getSquadSpeed forestRoadMatch (squadAt ''s1'' ''a'' 0 0 [militia ''u1'', \<lparr>unit_id = ''u2'', unit_type = SiegeRam, unit_hp = 200, unit_maxHp = 200\<rparr>]) = Inr (Finite 0.9)"
proof -
  let ?sq = "squadAt ''s1'' ''a'' 0 0 [militia ''u1'', \<lparr>unit_id = ''u2'', unit_type = SiegeRam, unit_hp = 200, unit_maxHp = 200\<rparr>]"
  have a: "wellFormedMap (gameMap forestRoadMatch)"
    by (simp add: forestRoadMatch_def newMatch_def wellFormedMap_def)
  have b: "units ?sq \<noteq> []" by (simp add: squadAt_def)
  from squad_speed_is_slowest_times_terrain[OF a b]
  have "getSquadSpeed forestRoadMatch ?sq = Inr (Finite 0.9)"
    by (simp add: forestRoadMatch_def newMatch_def squadAt_def militia_def newTile_def tileAt_def
        terrainFactor_def unitSpeed_def)
  with a b show ?thesis by simp
qed

text \<open>
  C9 as stated names one modifier per tile. On a forest tile that carries a road the code
  applies both: a militia squad moves at \<open>2.5 * 0.6 * 1.5 = 2.25\<close>, neither the forest
  speed nor the road speed.
\<close>

theorem squad_speed_forest_road_counterexample:
  "getSquadSpeed forestRoadMatch (squadAt ''s1'' ''a'' 0 0 [militia ''u1'']) = Inr (Finite 2.25)
   \<and> (2.25::real) \<noteq> 2.5 * 0.6 \<and> (2.25::real) \<noteq> 2.5 * 1.5"
  by (simp add: getSquadSpeed_def forestRoadMatch_def newMatch_def squadAt_def militia_def
      newTile_def tileAt_def Let_def)

subsection \<open>C4: spawn selection\<close>

lemma updateTile_dims [simp]:
  "width (updateTile m x y f) = width m" "height (updateTile m x y f) = height m"
  by (simp_all add: updateTile_def split: option.splits)

lemma tileAt_updateTile:
  "tileAt (updateTile m x y f) x' y' =
     (if x' = x \<and> y' = y then map_option f (tileAt m x y) else tileAt m x' y')"
proof (cases "tileAt m x y")
  case None
  then show ?thesis by (simp add: updateTile_def)
next
  case (Some t)
  then have r: "0 \<le> y" "y < int (length (tiles m))" "0 \<le> x" "x < int (length (tiles m ! nat y))"
    and t: "t = tiles m ! nat y ! nat x"
    by (auto simp: tileAt_def split: if_splits)
  have u: "updateTile m x y f = m\<lparr>tiles := (tiles m)[nat y := (tiles m ! nat y)[nat x := f t]]\<rparr>"
    using Some by (simp add: updateTile_def)
  show ?thesis
  proof (cases "0 \<le> y' \<and> y' < int (length (tiles m))")
    case False
    then show ?thesis using r Some by (auto simp: u tileAt_def)
  next
    case True
    show ?thesis
    proof (cases "y' = y")
      case True
      then show ?thesis using r Some t
        by (auto simp: u tileAt_def nth_list_update nat_eq_iff)
    next
      case False
      with True r have "nat y' \<noteq> nat y" by auto
      then show ?thesis using True r Some False
        by (auto simp: u tileAt_def nth_list_update)
    qed
  qed
qed

lemma wellFormedMap_updateTile:
  assumes wf: "wellFormedMap m"
  shows "wellFormedMap (updateTile m x y f)"
proof (cases "tileAt m x y")
  case None
  then show ?thesis using wf by (simp add: updateTile_def)
next
  case (Some t)
  from Some have r: "nat y < length (tiles m)"
    by (auto simp: tileAt_def split: if_splits)
  have u: "updateTile m x y f = m\<lparr>tiles := (tiles m)[nat y := (tiles m ! nat y)[nat x := f t]]\<rparr>"
    using Some by (simp add: updateTile_def)
  have "length row = nat (width m)"
    if "row \<in> set ((tiles m)[nat y := (tiles m ! nat y)[nat x := f t]])" for row
  proof -
    from that have "row = (tiles m ! nat y)[nat x := f t] \<or> row \<in> set (tiles m)"
      using set_update_subset_insert[of "tiles m" "nat y"] by auto
    moreover have "tiles m ! nat y \<in> set (tiles m)" using r by simp
    ultimately show ?thesis using wf by (auto simp: wellFormedMap_def list_all_iff)
  qed
  then show ?thesis using wf by (simp add: u wellFormedMap_def list_all_iff)
qed

lemma claimTiles_result:
  assumes "wellFormedMap m"
  shows "\<exists>m'. claimTiles playerId x y offs m = Inr m' \<and> wellFormedMap m' \<and>
           width m' = width m \<and> height m' = height m \<and>
           (\<forall>x' y'. tileAt m' x' y' =
              map_option (\<lambda>t. if (x' - x, y' - y) \<in> set offs \<and> terrain t \<noteq> Mountain
                               then claimed playerId t else t) (tileAt m x' y'))"
  using assms
proof (induction offs arbitrary: m)
  case Nil
  then show ?case by (simp add: option.map_ident)
next
  case (Cons off offs)
  obtain dx dy where o: "off = (dx, dy)" by (cases off)
  let ?tx = "x + dx" and ?ty = "y + dy"
  show ?case
  proof (cases "tileAt m ?tx ?ty")
    case None
    with tileAt_wellFormed[OF Cons.prems, of ?tx ?ty]
    have out: "?tx < 0 \<or> ?ty < 0 \<or> ?tx \<ge> width m \<or> ?ty \<ge> height m" by auto
    from Cons.IH[OF Cons.prems] obtain m' where m': "claimTiles playerId x y offs m = Inr m'"
      "wellFormedMap m'" "width m' = width m" "height m' = height m"
      "\<forall>x' y'. tileAt m' x' y' =
              map_option (\<lambda>t. if (x' - x, y' - y) \<in> set offs \<and> terrain t \<noteq> Mountain
                               then claimed playerId t else t) (tileAt m x' y')" by blast
    have "tileAt m' x' y' =
              map_option (\<lambda>t. if (x' - x, y' - y) \<in> set (off # offs) \<and> terrain t \<noteq> Mountain
                               then claimed playerId t else t) (tileAt m x' y')" for x' y'
    proof (cases "x' = ?tx \<and> y' = ?ty")
      case True
      with None m'(5) show ?thesis by simp
    next
      case False
      then have mem: "((x' - x, y' - y) \<in> set (off # offs)) = ((x' - x, y' - y) \<in> set offs)"
        by (auto simp: o)
      show ?thesis unfolding mem using m'(5) by simp
    qed
    with m' out show ?thesis by (auto simp: o Let_def)
  next
    case (Some tile)
    with tileAt_wellFormed[OF Cons.prems, of ?tx ?ty]
    have inb: "\<not> (?tx < 0 \<or> ?ty < 0 \<or> ?tx \<ge> width m \<or> ?ty \<ge> height m)" by auto
    show ?thesis
    proof (cases "terrain tile = Mountain")
      case True
      from Cons.IH[OF Cons.prems] obtain m' where m': "claimTiles playerId x y offs m = Inr m'"
        "wellFormedMap m'" "width m' = width m" "height m' = height m"
        "\<forall>x' y'. tileAt m' x' y' =
              map_option (\<lambda>t. if (x' - x, y' - y) \<in> set offs \<and> terrain t \<noteq> Mountain
                               then claimed playerId t else t) (tileAt m x' y')" by blast
      have "tileAt m' x' y' =
              map_option (\<lambda>t. if (x' - x, y' - y) \<in> set (off # offs) \<and> terrain t \<noteq> Mountain
                               then claimed playerId t else t) (tileAt m x' y')" for x' y'
      proof (cases "x' = ?tx \<and> y' = ?ty")
        case True
        with Some \<open>terrain tile = Mountain\<close> m'(5) show ?thesis by simp
      next
        case False
        then have mem: "((x' - x, y' - y) \<in> set (off # offs)) = ((x' - x, y' - y) \<in> set offs)"
          by (auto simp: o)
        show ?thesis unfolding mem using m'(5) by simp
      qed
      with m' inb Some True show ?thesis by (auto simp: o Let_def)
    next
      case False
      let ?m1 = "updateTile m ?tx ?ty (claimed playerId)"
      have wf1: "wellFormedMap ?m1" using Cons.prems by (rule wellFormedMap_updateTile)
      from Cons.IH[OF wf1] obtain m' where m': "claimTiles playerId x y offs ?m1 = Inr m'"
        "wellFormedMap m'" "width m' = width ?m1" "height m' = height ?m1"
        "\<forall>x' y'. tileAt m' x' y' =
              map_option (\<lambda>t. if (x' - x, y' - y) \<in> set offs \<and> terrain t \<noteq> Mountain
                               then claimed playerId t else t) (tileAt ?m1 x' y')" by blast
      have "tileAt m' x' y' =
              map_option (\<lambda>t. if (x' - x, y' - y) \<in> set (off # offs) \<and> terrain t \<noteq> Mountain
                               then claimed playerId t else t) (tileAt m x' y')" for x' y'
      proof (cases "x' = ?tx \<and> y' = ?ty")
        case True
        with Some False m'(5) show ?thesis
          by (simp add: o tileAt_updateTile claimed_def)
      next
        case False
        then have mem: "((x' - x, y' - y) \<in> set (off # offs)) = ((x' - x, y' - y) \<in> set offs)"
          by (auto simp: o)
        have e: "tileAt ?m1 x' y' = tileAt m x' y'" using False by (auto simp: tileAt_updateTile)
        show ?thesis unfolding mem using m'(5) e by simp
      qed
      moreover have "claimTiles playerId x y (off # offs) m = claimTiles playerId x y offs ?m1"
        using inb Some False by (simp add: o Let_def claimed_def[abs_def])
      ultimately show ?thesis using m' by auto
    qed
  qed
qed

lemma set_windowOffsets: "(dx, dy) \<in> set (windowOffsets r) \<longleftrightarrow> \<bar>dx\<bar> \<le> r \<and> \<bar>dy\<bar> \<le> r"
proof -
  have "set (windowOffsets r) = {- r..r} \<times> {- r..r}"
    unfolding windowOffsets_def by (auto simp: image_iff)
  then show ?thesis by (auto simp: abs_le_iff)
qed

lemma alist_update_fresh:
  "map_of al k = None \<Longrightarrow> AList.update k v al = al @ [(k, v)]"
  by (induction al) (auto split: if_splits)

lemma executeSpawnSelection_result:
  assumes wf: "wellFormedMap (gameMap s)"
    and pl: "map_of (players s) playerId = Some player"
    and tile: "tileAt (gameMap s) x y = Some t0"
  shows "\<exists>s'. executeSpawnSelection uuid playerId x y s = Inr s' \<and>
     (\<forall>x' y'. tileAt (gameMap s') x' y' =
        map_option (\<lambda>t.
          if x' = x \<and> y' = y
          then (if terrain t \<noteq> Mountain then claimed playerId t else t)
                 \<lparr>structureType := Some Castle, structureHp := BUILDING_HP Castle\<rparr>
          else if \<bar>x' - x\<bar> \<le> 2 \<and> \<bar>y' - y\<bar> \<le> 2 \<and> terrain t \<noteq> Mountain
               then claimed playerId t else t) (tileAt (gameMap s) x' y')) \<and>
     squads s' = AList.update (uuid 0)
        \<lparr>squad_id = uuid 0, squad_ownerId = playerId,
         units = makeUnits uuid 1 [(Militia, 5)],
         squad_x = real_of_int x, squad_y = real_of_int (y + 1), targetX = None, targetY = None,
         path = [], pathIndex = 0, moveProgress = 0\<rparr> (squads s)"
proof -
  from claimTiles_result[OF wf, of playerId x y "windowOffsets 2"]
  obtain m1 where m1: "claimTiles playerId x y (windowOffsets 2) (gameMap s) = Inr m1"
    and t1: "\<And>x' y'. tileAt m1 x' y' =
              map_option (\<lambda>t. if (x' - x, y' - y) \<in> set (windowOffsets 2) \<and> terrain t \<noteq> Mountain
                               then claimed playerId t else t) (tileAt (gameMap s) x' y')"
    by blast
  have t1': "tileAt m1 x' y' =
              map_option (\<lambda>t. if \<bar>x' - x\<bar> \<le> 2 \<and> \<bar>y' - y\<bar> \<le> 2 \<and> terrain t \<noteq> Mountain
                               then claimed playerId t else t) (tileAt (gameMap s) x' y')" for x' y'
    using t1[of x' y'] by (simp add: set_windowOffsets)
  from t1'[of x y] tile obtain c where c: "tileAt m1 x y = Some c" by auto
  let ?m2 = "updateTile m1 x y (\<lambda>t. t\<lparr>structureType := Some Castle, structureHp := BUILDING_HP Castle\<rparr>)"
  let ?s1 = "s\<lparr>players := AList.update playerId
                 (player\<lparr>capitalX := x, capitalY := y, spawnSelected := True\<rparr>) (players s)\<rparr>"
  let ?s' = "snd (createSquad uuid playerId (real_of_int x) (real_of_int (y + 1)) [(Militia, 5)]
                    (?s1\<lparr>gameMap := ?m2\<rparr>))"
  have r: "executeSpawnSelection uuid playerId x y s = Inr ?s'"
    using pl m1 c by (simp add: executeSpawnSelection_def Let_def)
  have g: "gameMap ?s' = ?m2" by (simp add: createSquad_def Let_def)
  have tiles: "tileAt (gameMap ?s') x' y' =
        map_option (\<lambda>t.
          if x' = x \<and> y' = y
          then (if terrain t \<noteq> Mountain then claimed playerId t else t)
                 \<lparr>structureType := Some Castle, structureHp := BUILDING_HP Castle\<rparr>
          else if \<bar>x' - x\<bar> \<le> 2 \<and> \<bar>y' - y\<bar> \<le> 2 \<and> terrain t \<noteq> Mountain
               then claimed playerId t else t) (tileAt (gameMap s) x' y')" for x' y'
  proof (cases "x' = x \<and> y' = y")
    case True
    then show ?thesis unfolding g
      by (cases "tileAt (gameMap s) x y") (simp_all add: tileAt_updateTile t1')
  next
    case False
    then have "tileAt ?m2 x' y' = tileAt m1 x' y'" by (auto simp: tileAt_updateTile)
    then show ?thesis unfolding g using False t1'[of x' y']
      by (cases "tileAt (gameMap s) x' y'") auto
  qed
  have sq: "squads ?s' = AList.update (uuid 0)
        \<lparr>squad_id = uuid 0, squad_ownerId = playerId,
         units = makeUnits uuid 1 [(Militia, 5)],
         squad_x = real_of_int x, squad_y = real_of_int (y + 1), targetX = None, targetY = None,
         path = [], pathIndex = 0, moveProgress = 0\<rparr> (squads s)"
    by (simp add: createSquad_def Let_def)
  from r tiles sq show ?thesis by blast
qed

text \<open>
  C4. For a contestant of the roster and a position on the map whose terrain is neither
  mountain nor water, spawn selection returns normally and yields: every non-mountain
  tile at Chebyshev distance at most 2 owned by the contestant (with full capture
  progress), every other tile unchanged, a castle with 500 hit points on the contestant's
  tile at the position, and exactly one new squad, of 5 militia at full health, placed at
  \<open>(x, y + 1)\<close>. The identifier \<open>uuidv4()\<close> returns for the squad is new.
\<close>

theorem spawn_selection_yields:
  assumes wf: "wellFormedMap (gameMap s)"
    and pl: "map_of (players s) playerId = Some player"
    and tile: "tileAt (gameMap s) x y = Some t0" "terrain t0 \<noteq> Mountain" "terrain t0 \<noteq> Water"
    and fresh: "map_of (squads s) (uuid 0) = None"
  shows "\<exists>s'. executeSpawnSelection uuid playerId x y s = Inr s' \<and>
     (\<forall>x' y' t. tileAt (gameMap s) x' y' = Some t \<and> max \<bar>x' - x\<bar> \<bar>y' - y\<bar> \<le> 2
          \<and> terrain t \<noteq> Mountain \<longrightarrow>
        (\<exists>t'. tileAt (gameMap s') x' y' = Some t' \<and> tile_ownerId t' = Some playerId
              \<and> captureProgress t' = 100)) \<and>
     (\<forall>x' y'. \<not> (max \<bar>x' - x\<bar> \<bar>y' - y\<bar> \<le> 2
                 \<and> (\<exists>t. tileAt (gameMap s) x' y' = Some t \<and> terrain t \<noteq> Mountain)) \<longrightarrow>
        tileAt (gameMap s') x' y' = tileAt (gameMap s) x' y') \<and>
     (\<exists>c. tileAt (gameMap s') x y = Some c \<and> structureType c = Some Castle
          \<and> structureHp c = 500 \<and> tile_ownerId c = Some playerId) \<and>
     squads s' = squads s @ [(uuid 0, startingSquad uuid playerId x y)]"
proof -
  from executeSpawnSelection_result[OF wf pl tile(1), of uuid]
  obtain s' where r: "executeSpawnSelection uuid playerId x y s = Inr s'"
    and t: "\<And>x' y'. tileAt (gameMap s') x' y' =
        map_option (\<lambda>t.
          if x' = x \<and> y' = y
          then (if terrain t \<noteq> Mountain then claimed playerId t else t)
                 \<lparr>structureType := Some Castle, structureHp := BUILDING_HP Castle\<rparr>
          else if \<bar>x' - x\<bar> \<le> 2 \<and> \<bar>y' - y\<bar> \<le> 2 \<and> terrain t \<noteq> Mountain
               then claimed playerId t else t) (tileAt (gameMap s) x' y')"
    and sq: "squads s' = AList.update (uuid 0)
        \<lparr>squad_id = uuid 0, squad_ownerId = playerId,
         units = makeUnits uuid 1 [(Militia, 5)],
         squad_x = real_of_int x, squad_y = real_of_int (y + 1), targetX = None, targetY = None,
         path = [], pathIndex = 0, moveProgress = 0\<rparr> (squads s)"
    by blast
  have a: "\<exists>t'. tileAt (gameMap s') x' y' = Some t' \<and> tile_ownerId t' = Some playerId
              \<and> captureProgress t' = 100"
    if "tileAt (gameMap s) x' y' = Some t" "max \<bar>x' - x\<bar> \<bar>y' - y\<bar> \<le> 2" "terrain t \<noteq> Mountain"
    for x' y' t
    using that t[of x' y'] by (auto simp: claimed_def CAPTURE_THRESHOLD_def)
  have b: "tileAt (gameMap s') x' y' = tileAt (gameMap s) x' y'"
    if "\<not> (max \<bar>x' - x\<bar> \<bar>y' - y\<bar> \<le> 2
                 \<and> (\<exists>t. tileAt (gameMap s) x' y' = Some t \<and> terrain t \<noteq> Mountain))" for x' y'
  proof (cases "tileAt (gameMap s) x' y'")
    case None
    then show ?thesis using t[of x' y'] by simp
  next
    case (Some u)
    with that tile have "\<not> (x' = x \<and> y' = y)" by auto
    with that Some show ?thesis using t[of x' y'] by auto
  qed
  have c: "\<exists>c. tileAt (gameMap s') x y = Some c \<and> structureType c = Some Castle
          \<and> structureHp c = 500 \<and> tile_ownerId c = Some playerId"
    using t[of x y] tile by (simp add: claimed_def)
  have d: "squads s' = squads s @ [(uuid 0, startingSquad uuid playerId x y)]"
    unfolding sq by (simp add: alist_update_fresh[OF fresh] startingSquad_def)
  from r a b c d show ?thesis by blast
qed

theorem spawn_selection_yields_witness:
  "wellFormedMap (gameMap spawnMatch)
   \<and> map_of (players spawnMatch) ''a'' = Some (joined ''a'')
   \<and> tileAt (gameMap spawnMatch) 1 1 = Some (newTile Plains 1 1)
   \<and> terrain (newTile Plains 1 1) \<noteq> Mountain \<and> terrain (newTile Plains 1 1) \<noteq> Water
   \<and> map_of (squads spawnMatch) (exampleUuid 0) = None
   \<and> (\<exists>s'. executeSpawnSelection exampleUuid ''a'' 1 1 spawnMatch = Inr s'
          \<and> (\<exists>c. tileAt (gameMap s') 1 1 = Some c \<and> structureType c = Some Castle
                  \<and> structureHp c = 500 \<and> tile_ownerId c = Some ''a'')
          \<and> squads s' = [(''u'', startingSquad exampleUuid ''a'' 1 1)])"
proof -
  have 1: "wellFormedMap (gameMap spawnMatch)"
    by (simp add: spawnMatch_def uniformMap_def wellFormedMap_def upt_rec)
  have 2: "map_of (players spawnMatch) ''a'' = Some (joined ''a'')"
    by (simp add: spawnMatch_def rosterOf_def)
  have 3: "tileAt (gameMap spawnMatch) 1 1 = Some (newTile Plains 1 1)"
    by (simp add: spawnMatch_def uniformMap_def tileAt_def upt_rec)
  have 4: "terrain (newTile Plains 1 1) \<noteq> Mountain" "terrain (newTile Plains 1 1) \<noteq> Water"
    by (simp_all add: newTile_def)
  have 5: "map_of (squads spawnMatch) (exampleUuid 0) = None"
    by (simp add: spawnMatch_def rosterOf_def newMatch_def)
  have 6: "squads spawnMatch = []" "exampleUuid 0 = ''u''"
    by (simp_all add: spawnMatch_def rosterOf_def newMatch_def exampleUuid_def)
  from spawn_selection_yields[where uuid = exampleUuid, OF 1 2 3 4 5]
  have "\<exists>s'. executeSpawnSelection exampleUuid ''a'' 1 1 spawnMatch = Inr s'
          \<and> (\<exists>c. tileAt (gameMap s') 1 1 = Some c \<and> structureType c = Some Castle
                  \<and> structureHp c = 500 \<and> tile_ownerId c = Some ''a'')
          \<and> squads s' = [(''u'', startingSquad exampleUuid ''a'' 1 1)]"
    unfolding 6 by auto
  with 1 2 3 4 5 show ?thesis by blast
qed

subsection \<open>C5: a destroyed castle eliminates its owner\<close>

lemma tileAt_map_tiles:
  "tileAt (m\<lparr>tiles := map (map f) (tiles m)\<rparr>) x y = map_option f (tileAt m x y)"
  by (auto simp: tileAt_def)

lemma map_of_fold_delete:
  "map_of (fold AList.delete ids al) k = (if k \<in> set ids then None else map_of al k)"
  by (induction ids arbitrary: al) (auto simp: AList.delete_conv')

lemma entityCells_remove:
  "map_of (entityCells (remove i sh)) = (map_of (entityCells sh))(i := None)"
proof (cases "map_of (entityCells sh) i")
  case None
  then show ?thesis by (auto simp: remove_def fun_eq_iff)
next
  case (Some k)
  then show ?thesis
    using removeFromCell_fields[of i k sh]
    by (simp add: remove_def Let_def AList.delete_conv')
qed

lemma entityCells_fold_remove:
  "map_of (entityCells (fold remove ids sh)) k =
     (if k \<in> set ids then None else map_of (entityCells sh) k)"
  by (induction ids arbitrary: sh) (auto simp: entityCells_remove)

lemma consistent_fold_remove:
  "consistent sh \<Longrightarrow> consistent (fold remove ids sh)"
  by (induction ids arbitrary: sh) (auto simp: consistent_remove)

lemma consistent_untracked_absent:
  assumes "consistent sh" and "map_of (entityCells sh) i = None"
    and "map_of (cells sh) k = Some es"
  shows "i \<notin> entry_id ` set es"
proof
  assume "i \<in> entry_id ` set es"
  then obtain e where "e \<in> set es" "entry_id e = i" by force
  with assms(1,3) have "map_of (entityCells sh) i = Some k"
    unfolding consistent_def by blast
  with assms(2) show False by simp
qed

lemma fold_removeSquad_fields:
  "squads (fold removeSquad ids s) = fold AList.delete ids (squads s) \<and>
   spatialHash (fold removeSquad ids s) = fold remove ids (spatialHash s) \<and>
   gameMap (fold removeSquad ids s) = gameMap s \<and>
   players (fold removeSquad ids s) = players s"
  by (induction ids arbitrary: s) (auto simp: removeSquad_def)

lemma eliminatePlayer_result:
  assumes pl: "map_of (players s) playerId = Some player" and al: "alive player"
  shows "map_of (players (eliminatePlayer playerId s)) playerId = Some (player\<lparr>alive := False\<rparr>)"
    and "\<And>sid sq. map_of (squads s) sid = Some sq \<Longrightarrow> squad_ownerId sq = playerId \<Longrightarrow>
           map_of (squads (eliminatePlayer playerId s)) sid = None"
    and "\<And>sid sq. map_of (squads (eliminatePlayer playerId s)) sid = Some sq \<Longrightarrow>
           squad_ownerId sq \<noteq> playerId \<and> map_of (squads s) sid = Some sq"
    and "\<And>sid sq. map_of (squads s) sid = Some sq \<Longrightarrow> squad_ownerId sq = playerId \<Longrightarrow>
           map_of (entityCells (spatialHash (eliminatePlayer playerId s))) sid = None"
    and "consistent (spatialHash s) \<Longrightarrow> consistent (spatialHash (eliminatePlayer playerId s))"
    and "\<And>x y. tileAt (gameMap (eliminatePlayer playerId s)) x y =
           map_option (clearTerritory playerId) (tileAt (gameMap s) x y)"
proof -
  let ?ids = "map fst (filter (\<lambda>e. squad_ownerId (snd e) = playerId) (squads s))"
  have mem: "sid \<in> set ?ids" if "map_of (squads s) sid = Some sq" "squad_ownerId sq = playerId"
    for sid sq
  proof -
    from that(1) have "(sid, sq) \<in> set (squads s)" by (rule map_of_SomeD)
    with that(2) show ?thesis by force
  qed
  have notmem: "squad_ownerId sq \<noteq> playerId"
    if "map_of (squads s) sid = Some sq" "sid \<notin> set ?ids" for sid sq
    using that mem by blast
  have sq: "squads (eliminatePlayer playerId s) = fold AList.delete ?ids (squads s)"
    and sh: "spatialHash (eliminatePlayer playerId s) = fold remove ?ids (spatialHash s)"
    and gm: "gameMap (eliminatePlayer playerId s) =
               (gameMap s)\<lparr>tiles := map (map (clearTerritory playerId)) (tiles (gameMap s))\<rparr>"
    and ps: "players (eliminatePlayer playerId s) =
               AList.update playerId (player\<lparr>alive := False\<rparr>) (players s)"
    using pl al
    by (simp_all add: eliminatePlayer_def Let_def fold_removeSquad_fields split: option.splits)
  show "map_of (players (eliminatePlayer playerId s)) playerId = Some (player\<lparr>alive := False\<rparr>)"
    by (simp add: ps AList.update_conv')
  show "map_of (squads (eliminatePlayer playerId s)) sid = None"
    if "map_of (squads s) sid = Some q" "squad_ownerId q = playerId" for sid q
    using mem[OF that] by (simp add: sq map_of_fold_delete)
  show "squad_ownerId q \<noteq> playerId \<and> map_of (squads s) sid = Some q"
    if "map_of (squads (eliminatePlayer playerId s)) sid = Some q" for sid q
  proof -
    from that have "sid \<notin> set ?ids" "map_of (squads s) sid = Some q"
      by (auto simp: sq map_of_fold_delete split: if_splits)
    with notmem show ?thesis by blast
  qed
  show "map_of (entityCells (spatialHash (eliminatePlayer playerId s))) sid = None"
    if "map_of (squads s) sid = Some q" "squad_ownerId q = playerId" for sid q
    using mem[OF that] by (simp add: sh entityCells_fold_remove)
  show "consistent (spatialHash (eliminatePlayer playerId s))" if "consistent (spatialHash s)"
    using that by (simp add: sh consistent_fold_remove)
  show "tileAt (gameMap (eliminatePlayer playerId s)) x y =
           map_option (clearTerritory playerId) (tileAt (gameMap s) x y)" for x y
    by (simp add: gm tileAt_map_tiles)
qed

lemma clearTerritory_not_owned: "tile_ownerId (clearTerritory playerId t) \<noteq> Some playerId"
  by (simp add: clearTerritory_def Let_def)

lemma clearTerritory_owned:
  "tile_ownerId t = Some playerId \<Longrightarrow> tile_ownerId (clearTerritory playerId t) = None"
  by (simp add: clearTerritory_def Let_def)

lemma castleMatch_wellFormed: "wellFormedMap (gameMap castleMatch)"
  by (simp add: castleMatch_def wellFormedMap_def)

text \<open>
  C5. When a squad's attack brings the hit points of a castle owned by a living
  contestant to 0 or below, the same call of \<open>attackEnemyStructures\<close> (a step of the
  tick's combat resolution) marks the owner not alive, removes every squad the owner had
  from the squad collection and from the spatial index, and clears the owner of every tile
  the contestant owned: each such tile has \<open>ownerId = null\<close> afterwards, so that no tile
  is owned by the contestant any more.
\<close>

theorem castle_destroyed_eliminates_owner:
  assumes wf: "wellFormedMap (gameMap s)"
    and ix: "consistent (spatialHash s)"
    and tile: "tileAt (gameMap s) (round (squad_x squad)) (round (squad_y squad)) = Some tile"
    and castle: "structureType tile = Some Castle"
    and owner: "tile_ownerId tile = Some owner" "owner \<noteq> []" "owner \<noteq> squad_ownerId squad"
    and hp: "structureHp tile - structureDamage squad dt \<le> 0"
    and pl: "map_of (players s) owner = Some player" "alive player"
  shows "\<exists>s'. attackEnemyStructures squad dt s = Inr s' \<and>
     (\<exists>p. map_of (players s') owner = Some p \<and> \<not> alive p) \<and>
     (\<forall>sid sq. map_of (squads s) sid = Some sq \<and> squad_ownerId sq = owner \<longrightarrow>
          map_of (squads s') sid = None \<and> map_of (entityCells (spatialHash s')) sid = None \<and>
          (\<forall>k es. map_of (cells (spatialHash s')) k = Some es \<longrightarrow> sid \<notin> entry_id ` set es)) \<and>
     (\<forall>sid sq. map_of (squads s') sid = Some sq \<longrightarrow> squad_ownerId sq \<noteq> owner) \<and>
     (\<forall>x y t. tileAt (gameMap s) x y = Some t \<and> tile_ownerId t = Some owner \<longrightarrow>
          (\<exists>t'. tileAt (gameMap s') x y = Some t' \<and> tile_ownerId t' = None)) \<and>
     (\<forall>x y t. tileAt (gameMap s') x y = Some t \<longrightarrow> tile_ownerId t \<noteq> Some owner)"
proof -
  let ?x = "round (squad_x squad)" and ?y = "round (squad_y squad)"
  define s1 where "s1 = s\<lparr>gameMap := updateTile (gameMap s) ?x ?y
      (\<lambda>t. t\<lparr>structureHp := structureHp tile - structureDamage squad dt\<rparr>)\<rparr>"
  define s2 where "s2 = eliminatePlayer owner s1"
  define s' where "s' = s2\<lparr>gameMap := updateTile (gameMap s2) ?x ?y
                              (\<lambda>t. t\<lparr>structureType := None, structureHp := 0\<rparr>),
                 tickEvents := tickEvents s2 @
                   [StructureDestroyedEvent ?x ?y (squad_ownerId squad)]\<rparr>"
  from tileAt_wellFormed[OF wf, of ?x ?y] tile
  have inb: "\<not> (?x < 0 \<or> ?y < 0 \<or> ?x \<ge> width (gameMap s) \<or> ?y \<ge> height (gameMap s))"
    by auto
  have r: "attackEnemyStructures squad dt s = Inr s'"
    using inb tile castle owner hp
    by (simp add: attackEnemyStructures_def Let_def truthy_def s'_def s2_def s1_def)
  have f1: "players s1 = players s" "squads s1 = squads s" "spatialHash s1 = spatialHash s"
    by (simp_all add: s1_def)
  have f': "players s' = players s2" "squads s' = squads s2" "spatialHash s' = spatialHash s2"
    by (simp_all add: s'_def)
  have pl1: "map_of (players s1) owner = Some player" using pl(1) by (simp add: f1)
  note e = eliminatePlayer_result[OF pl1 pl(2), folded s2_def]
  have a: "\<exists>p. map_of (players s') owner = Some p \<and> \<not> alive p"
    using e(1) by (simp add: f')
  have b: "map_of (squads s') sid = None \<and> map_of (entityCells (spatialHash s')) sid = None \<and>
          (\<forall>k es. map_of (cells (spatialHash s')) k = Some es \<longrightarrow> sid \<notin> entry_id ` set es)"
    if "map_of (squads s) sid = Some sq" "squad_ownerId sq = owner" for sid sq
  proof -
    from that have q: "map_of (squads s1) sid = Some sq" by (simp add: f1)
    have c: "consistent (spatialHash s2)" using e(5) ix by (simp add: f1)
    have u: "map_of (entityCells (spatialHash s2)) sid = None" using e(4)[OF q that(2)] .
    have "sid \<notin> entry_id ` set es" if "map_of (cells (spatialHash s2)) k = Some es" for k es
      using c u that by (rule consistent_untracked_absent)
    with e(2)[OF q that(2)] u show ?thesis by (simp add: f')
  qed
  have c: "squad_ownerId sq \<noteq> owner" if "map_of (squads s') sid = Some sq" for sid sq
    using e(3)[of sid sq] that by (simp add: f')
  have d: "tile_ownerId t \<noteq> Some owner" if "tileAt (gameMap s') x y = Some t" for x y t
  proof -
    from that obtain t2 where t2: "tileAt (gameMap s2) x y = Some t2"
      and "tile_ownerId t = tile_ownerId t2"
      by (auto simp: s'_def tileAt_updateTile split: if_splits)
    moreover from t2 e(6)[of x y] obtain t1 where "t2 = clearTerritory owner t1" by auto
    ultimately show ?thesis by (simp add: clearTerritory_not_owned)
  qed
  have e': "\<exists>t'. tileAt (gameMap s') x y = Some t' \<and> tile_ownerId t' = None"
    if own: "tileAt (gameMap s) x y = Some t" "tile_ownerId t = Some owner" for x y t
  proof -
    have "\<exists>t1. tileAt (gameMap s1) x y = Some t1 \<and> tile_ownerId t1 = Some owner"
    proof (cases "x = ?x \<and> y = ?y")
      case True
      with own show ?thesis by (simp add: s1_def tileAt_updateTile)
    next
      case False
      then have "tileAt (gameMap s1) x y = tileAt (gameMap s) x y"
        by (auto simp: s1_def tileAt_updateTile)
      with own show ?thesis by simp
    qed
    then obtain t1 where t1: "tileAt (gameMap s1) x y = Some t1" "tile_ownerId t1 = Some owner"
      by blast
    from t1(1) e(6)[of x y] have t2: "tileAt (gameMap s2) x y = Some (clearTerritory owner t1)"
      by simp
    have "tile_ownerId (clearTerritory owner t1) = None" by (rule clearTerritory_owned[OF t1(2)])
    with t2 show ?thesis by (auto simp: s'_def tileAt_updateTile)
  qed
  have B: "\<forall>sid sq. map_of (squads s) sid = Some sq \<and> squad_ownerId sq = owner \<longrightarrow>
          map_of (squads s') sid = None \<and> map_of (entityCells (spatialHash s')) sid = None \<and>
          (\<forall>k es. map_of (cells (spatialHash s')) k = Some es \<longrightarrow> sid \<notin> entry_id ` set es)"
    using b by blast
  have C: "\<forall>sid sq. map_of (squads s') sid = Some sq \<longrightarrow> squad_ownerId sq \<noteq> owner"
    using c by blast
  have E: "\<forall>x y t. tileAt (gameMap s) x y = Some t \<and> tile_ownerId t = Some owner \<longrightarrow>
          (\<exists>t'. tileAt (gameMap s') x y = Some t' \<and> tile_ownerId t' = None)"
    using e' by blast
  have D: "\<forall>x y t. tileAt (gameMap s') x y = Some t \<longrightarrow> tile_ownerId t \<noteq> Some owner"
    using d by blast
  show ?thesis by (intro exI[of _ s'] conjI r a B C E D)
qed

theorem castle_destroyed_eliminates_owner_witness:
  "wellFormedMap (gameMap castleMatch) \<and> consistent (spatialHash castleMatch)
   \<and> tileAt (gameMap castleMatch) (round (squad_x ramSquad)) (round (squad_y ramSquad))
       = Some ((newTile Plains 0 0)\<lparr>tile_ownerId := Some ''b'', structureType := Some Castle,
                 structureHp := 20, captureProgress := 100, tile_connected := True\<rparr>)
   \<and> ''b'' \<noteq> squad_ownerId ramSquad
   \<and> 20 - structureDamage ramSquad (1 / 5) \<le> 0
   \<and> map_of (players castleMatch) ''b'' = Some (joined ''b'') \<and> alive (joined ''b'')
   \<and> map_option squad_ownerId (map_of (squads castleMatch) ''sb'') = Some ''b''
   \<and> (\<exists>s'. attackEnemyStructures ramSquad (1 / 5) castleMatch = Inr s'
          \<and> (\<exists>p. map_of (players s') ''b'' = Some p \<and> \<not> alive p)
          \<and> map_of (squads s') ''sb'' = None
          \<and> map_of (entityCells (spatialHash s')) ''sb'' = None
          \<and> map_option tile_ownerId (tileAt (gameMap s') 0 0) = Some None)"
proof -
  let ?tile = "(newTile Plains 0 0)\<lparr>tile_ownerId := Some ''b'', structureType := Some Castle,
                 structureHp := 20, captureProgress := 100, tile_connected := True\<rparr>"
  have 1: "wellFormedMap (gameMap castleMatch)" by (rule castleMatch_wellFormed)
  have 2: "consistent (spatialHash castleMatch)"
    by (simp add: castleMatch_def runOps_def consistent_insertOrUpdate consistent_new)
  have 3: "tileAt (gameMap castleMatch) (round (squad_x ramSquad)) (round (squad_y ramSquad))
       = Some ?tile"
    by (simp add: castleMatch_def ramSquad_def squadAt_def tileAt_def)
  have 4: "structureType ?tile = Some Castle" "tile_ownerId ?tile = Some ''b''" "''b'' \<noteq> []"
    "''b'' \<noteq> squad_ownerId ramSquad"
    by (simp_all add: newTile_def ramSquad_def squadAt_def)
  have 5: "structureHp ?tile - structureDamage ramSquad (1 / 5) \<le> 0"
    by (simp add: newTile_def ramSquad_def squadAt_def structureDamage_def)
  have 6: "map_of (players castleMatch) ''b'' = Some (joined ''b'')" "alive (joined ''b'')"
    by (simp_all add: castleMatch_def rosterOf_def joined_def)
  have 7: "map_of (squads castleMatch) ''sb'' = Some (squadAt ''sb'' ''b'' 1 0 [militia ''m1''])"
    "squad_ownerId (squadAt ''sb'' ''b'' 1 0 [militia ''m1'']) = ''b''"
    by (simp_all add: castleMatch_def squadAt_def)
  have 8: "tileAt (gameMap castleMatch) 0 0 = Some ?tile"
    by (simp add: castleMatch_def tileAt_def)
  from castle_destroyed_eliminates_owner[OF 1 2 3 4 5 6] obtain s' p where
    r: "attackEnemyStructures ramSquad (1 / 5) castleMatch = Inr s'"
    and a0: "map_of (players s') ''b'' = Some p" "\<not> alive p"
    and b: "\<forall>sid sq. map_of (squads castleMatch) sid = Some sq \<and> squad_ownerId sq = ''b'' \<longrightarrow>
          map_of (squads s') sid = None \<and> map_of (entityCells (spatialHash s')) sid = None \<and>
          (\<forall>k es. map_of (cells (spatialHash s')) k = Some es \<longrightarrow> sid \<notin> entry_id ` set es)"
    and c: "\<forall>sid sq. map_of (squads s') sid = Some sq \<longrightarrow> squad_ownerId sq \<noteq> ''b''"
    and t: "\<forall>x y t. tileAt (gameMap castleMatch) x y = Some t \<and> tile_ownerId t = Some ''b'' \<longrightarrow>
          (\<exists>t'. tileAt (gameMap s') x y = Some t' \<and> tile_ownerId t' = None)"
    by (elim exE conjE)
  from a0 have a: "\<exists>p. map_of (players s') ''b'' = Some p \<and> \<not> alive p" by blast
  from b[rule_format, OF conjI[OF 7]]
  have bs: "map_of (squads s') ''sb'' = None" "map_of (entityCells (spatialHash s')) ''sb'' = None"
    by blast+
  from t[rule_format, OF conjI[OF 8 4(2)]] obtain t' where
    "tileAt (gameMap s') 0 0 = Some t'" "tile_ownerId t' = None" by blast
  then have ts: "map_option tile_ownerId (tileAt (gameMap s') 0 0) = Some None" by simp
  have "attackEnemyStructures ramSquad (1 / 5) castleMatch = Inr s'
          \<and> (\<exists>p. map_of (players s') ''b'' = Some p \<and> \<not> alive p)
          \<and> map_of (squads s') ''sb'' = None
          \<and> map_of (entityCells (spatialHash s')) ''sb'' = None
          \<and> map_option tile_ownerId (tileAt (gameMap s') 0 0) = Some None"
    by (intro conjI r a bs ts)
  then have "\<exists>s'. attackEnemyStructures ramSquad (1 / 5) castleMatch = Inr s'
          \<and> (\<exists>p. map_of (players s') ''b'' = Some p \<and> \<not> alive p)
          \<and> map_of (squads s') ''sb'' = None
          \<and> map_of (entityCells (spatialHash s')) ''sb'' = None
          \<and> map_option tile_ownerId (tileAt (gameMap s') 0 0) = Some None"
    by (rule exI)
  note ex = this
  have 9: "20 - structureDamage ramSquad (1 / 5) \<le> 0" using 5 by (simp add: newTile_def)
  have 10: "map_option squad_ownerId (map_of (squads castleMatch) ''sb'') = Some ''b''"
    using 7 by simp
  show ?thesis by (intro conjI 1 2 3 4(4) 9 6 10 ex)
qed

subsection \<open>C3: capture progress and ownership changes\<close>

lemma stepOK_refl: "stepOK t t"
  by (simp add: stepOK_def)

lemma captureTile_step:
  assumes wf: "wellFormedMap (gameMap s)" and dt: "0 \<le> dt"
  shows "\<exists>s'. captureTile dt (k, pr) s = Inr s' \<and> wellFormedMap (gameMap s') \<and>
     (\<forall>x y. (x, y) \<noteq> k \<longrightarrow> tileAt (gameMap s') x y = tileAt (gameMap s) x y) \<and>
     (\<forall>t. tileAt (gameMap s) (fst k) (snd k) = Some t \<longrightarrow>
        (\<exists>t'. tileAt (gameMap s') (fst k) (snd k) = Some t' \<and> stepOK t t')) \<and>
     (tileAt (gameMap s) (fst k) (snd k) = None \<longrightarrow> tileAt (gameMap s') (fst k) (snd k) = None)"
proof (cases "tileAt (gameMap s) (fst k) (snd k)")
  case None
  with tileAt_wellFormed[OF wf, of "fst k" "snd k"]
  have "fst k < 0 \<or> snd k < 0 \<or> fst k \<ge> width (gameMap s) \<or> snd k \<ge> height (gameMap s)"
    by auto
  then have "captureTile dt (k, pr) s = Inr s" by (simp add: captureTile_def Let_def)
  with wf None show ?thesis by simp
next
  case (Some tile)
  with tileAt_wellFormed[OF wf, of "fst k" "snd k"]
  have inb: "\<not> (fst k < 0 \<or> snd k < 0 \<or> fst k \<ge> width (gameMap s) \<or> snd k \<ge> height (gameMap s))"
    by auto
  have upd: "\<exists>s'. captureTile dt (k, pr) s = Inr s' \<and>
       (gameMap s' = gameMap s \<or>
        (\<exists>f. gameMap s' = updateTile (gameMap s) (fst k) (snd k) f \<and> stepOK tile (f tile)))"
  proof -
    let ?pid = "presence_playerId pr"
    have n: "0 \<le> CAPTURE_RATE * dt * real (unitCount pr) * 0.5"
       "0 \<le> CAPTURE_RATE * dt * real (min (unitCount pr) 5)"
      using dt by (simp_all add: CAPTURE_RATE_def)
    consider (skip) "terrain tile = Mountain \<or>
          (tile_ownerId tile = Some ?pid \<and> captureProgress tile \<ge> CAPTURE_THRESHOLD) \<or>
          tile_ownerId tile = Some ?pid"
      | (contested) "terrain tile \<noteq> Mountain" "tile_ownerId tile \<noteq> Some ?pid"
          "truthy (capturingPlayerId tile) \<and> capturingPlayerId tile \<noteq> Some ?pid"
      | (advance) "terrain tile \<noteq> Mountain" "tile_ownerId tile \<noteq> Some ?pid"
          "\<not> (truthy (capturingPlayerId tile) \<and> capturingPlayerId tile \<noteq> Some ?pid)"
      by blast
    then show ?thesis
    proof cases
      case skip
      then have "captureTile dt (k, pr) s = Inr s"
        using inb Some by (auto simp: captureTile_def Let_def)
      then show ?thesis by simp
    next
      case contested
      let ?p = "captureProgress tile - CAPTURE_RATE * dt * real (unitCount pr) * 0.5"
      let ?f = "\<lambda>t. if ?p \<le> 0 then t\<lparr>captureProgress := 0, capturingPlayerId := Some ?pid\<rparr>
                     else t\<lparr>captureProgress := ?p\<rparr>"
      have "captureTile dt (k, pr) s =
              Inr (s\<lparr>gameMap := updateTile (gameMap s) (fst k) (snd k) ?f\<rparr>)"
        using inb Some contested by (simp add: captureTile_def Let_def cong: if_cong)
      moreover have "stepOK tile (?f tile)"
        using n(1) by (auto simp: stepOK_def)
      ultimately show ?thesis by auto
    next
      case advance
      let ?p = "captureProgress tile + CAPTURE_RATE * dt * real (min (unitCount pr) 5)"
      show ?thesis
      proof (cases "?p \<ge> CAPTURE_THRESHOLD")
        case True
        let ?f = "\<lambda>t. t\<lparr>tile_ownerId := Some ?pid, captureProgress := CAPTURE_THRESHOLD,
                         capturingPlayerId := None\<rparr>"
        let ?ps = "case tile_ownerId tile of
                     None \<Rightarrow> bumpTerritory ?pid (players s)
                   | Some prev \<Rightarrow>
                       if truthy (tile_ownerId tile)
                       then dropTerritory prev (bumpTerritory ?pid (players s))
                       else bumpTerritory ?pid (players s)"
        let ?st = "case map_of (playerStats s) ?pid of
                     None \<Rightarrow> playerStats s
                   | Some st \<Rightarrow> AList.update ?pid
                       (st\<lparr>territoryCaptured := territoryCaptured st + 1\<rparr>) (playerStats s)"
        have "captureTile dt (k, pr) s =
              Inr (s\<lparr>gameMap := updateTile (gameMap s) (fst k) (snd k) ?f,
                     players := ?ps, playerStats := ?st\<rparr>)"
          using inb Some advance True by (auto simp: captureTile_def Let_def cong: if_cong)
        moreover have "stepOK tile (?f tile)"
          by (simp add: stepOK_def CAPTURE_THRESHOLD_def)
        ultimately show ?thesis by auto
      next
        case False
        let ?f = "\<lambda>t. t\<lparr>capturingPlayerId := Some ?pid, captureProgress := ?p\<rparr>"
        have "captureTile dt (k, pr) s =
              Inr (s\<lparr>gameMap := updateTile (gameMap s) (fst k) (snd k) ?f\<rparr>)"
          using inb Some advance False by (auto simp: captureTile_def Let_def cong: if_cong)
        moreover have "stepOK tile (?f tile)"
          using n(2) False by (auto simp: stepOK_def CAPTURE_THRESHOLD_def)
        ultimately show ?thesis by auto
      qed
    qed
  qed
  then obtain s' where s': "captureTile dt (k, pr) s = Inr s'"
    and g: "gameMap s' = gameMap s \<or>
        (\<exists>f. gameMap s' = updateTile (gameMap s) (fst k) (snd k) f \<and> stepOK tile (f tile))"
    by blast
  from g show ?thesis
  proof
    assume "gameMap s' = gameMap s"
    with s' wf Some show ?thesis by (auto simp: stepOK_refl)
  next
    assume "\<exists>f. gameMap s' = updateTile (gameMap s) (fst k) (snd k) f \<and> stepOK tile (f tile)"
    then obtain f where f: "gameMap s' = updateTile (gameMap s) (fst k) (snd k) f"
      "stepOK tile (f tile)" by blast
    have "wellFormedMap (gameMap s')" unfolding f(1) using wf by (rule wellFormedMap_updateTile)
    moreover have "tileAt (gameMap s') x y = tileAt (gameMap s) x y" if "(x, y) \<noteq> k" for x y
      using that unfolding f(1) by (cases k) (auto simp: tileAt_updateTile)
    moreover have "tileAt (gameMap s') (fst k) (snd k) = Some (f tile)"
      unfolding f(1) using Some by (simp add: tileAt_updateTile)
    ultimately show ?thesis using s' Some f(2) by auto
  qed
qed

lemma tileStep_same: "tileAt m' x y = tileAt m x y \<Longrightarrow> tileStep m m' x y"
  by (auto simp: tileStep_def stepOK_refl split: option.splits)

lemma tileStep_cong_right:
  "tileAt m2 x y = tileAt m1 x y \<Longrightarrow> tileStep m m1 x y \<Longrightarrow> tileStep m m2 x y"
  by (auto simp: tileStep_def split: option.splits)

lemma tileStep_cong_left:
  "tileAt m1 x y = tileAt m x y \<Longrightarrow> tileStep m1 m' x y \<Longrightarrow> tileStep m m' x y"
  by (auto simp: tileStep_def split: option.splits)

lemma captureTiles_result:
  assumes dt: "0 \<le> dt"
  shows "wellFormedMap (gameMap s) \<Longrightarrow> distinct (map fst kps) \<Longrightarrow>
     \<exists>s'. captureTiles dt kps s = Inr s' \<and> wellFormedMap (gameMap s') \<and>
       (\<forall>x y. if (x, y) \<in> fst ` set kps then tileStep (gameMap s) (gameMap s') x y
               else tileAt (gameMap s') x y = tileAt (gameMap s) x y)"
proof (induction kps arbitrary: s)
  case Nil
  then show ?case by simp
next
  case (Cons kp kps)
  obtain k pr where kp: "kp = (k, pr)" by (cases kp)
  from captureTile_step[OF Cons.prems(1) dt, of k pr]
  obtain s1 where s1: "captureTile dt (k, pr) s = Inr s1" "wellFormedMap (gameMap s1)"
    and same0: "\<forall>x y. (x, y) \<noteq> k \<longrightarrow> tileAt (gameMap s1) x y = tileAt (gameMap s) x y"
    and at0: "\<forall>t. tileAt (gameMap s) (fst k) (snd k) = Some t \<longrightarrow>
                (\<exists>t'. tileAt (gameMap s1) (fst k) (snd k) = Some t' \<and> stepOK t t')"
    and atn0: "tileAt (gameMap s) (fst k) (snd k) = None \<longrightarrow>
                tileAt (gameMap s1) (fst k) (snd k) = None"
    by (elim exE conjE)
  have same: "tileAt (gameMap s1) x y = tileAt (gameMap s) x y" if "(x, y) \<noteq> k" for x y
    using same0 that by simp
  have at: "\<exists>t'. tileAt (gameMap s1) (fst k) (snd k) = Some t' \<and> stepOK t t'"
    if "tileAt (gameMap s) (fst k) (snd k) = Some t" for t
    using at0 that by simp
  have atn: "tileAt (gameMap s1) (fst k) (snd k) = None"
    if "tileAt (gameMap s) (fst k) (snd k) = None"
    using atn0 that by simp
  have atk: "tileStep (gameMap s) (gameMap s1) (fst k) (snd k)"
    using at atn by (auto simp: tileStep_def split: option.splits)
  from Cons.prems(2) have d': "distinct (map fst kps)" and kn: "k \<notin> fst ` set kps"
    by (simp_all add: kp)
  from Cons.IH[OF s1(2) d']
  obtain s' where s': "captureTiles dt kps s1 = Inr s'" "wellFormedMap (gameMap s')"
    and rel: "\<And>x y. if (x, y) \<in> fst ` set kps then tileStep (gameMap s1) (gameMap s') x y
               else tileAt (gameMap s') x y = tileAt (gameMap s1) x y"
    by blast
  have "if (x, y) \<in> fst ` set (kp # kps) then tileStep (gameMap s) (gameMap s') x y
               else tileAt (gameMap s') x y = tileAt (gameMap s) x y" for x y
  proof (cases "(x, y) = k")
    case True
    with kn rel[of x y] have e: "tileAt (gameMap s') x y = tileAt (gameMap s1) x y" by auto
    from atk True have "tileStep (gameMap s) (gameMap s1) x y" by auto
    with e have "tileStep (gameMap s) (gameMap s') x y" by (rule tileStep_cong_right)
    with True show ?thesis by (simp add: kp)
  next
    case False
    have e: "tileAt (gameMap s1) x y = tileAt (gameMap s) x y" using False by (rule same)
    show ?thesis
    proof (cases "(x, y) \<in> fst ` set kps")
      case True
      with rel[of x y] have "tileStep (gameMap s1) (gameMap s') x y" by simp
      with e have "tileStep (gameMap s) (gameMap s') x y" by (rule tileStep_cong_left)
      with True show ?thesis by simp
    next
      case f: False
      with rel[of x y] e False show ?thesis by (auto simp: kp)
    qed
  qed
  moreover have "captureTiles dt (kp # kps) s = Inr s'" using s1(1) s'(1) by (simp add: kp)
  ultimately show ?case using s'(2) by blast
qed

lemma distinct_notePresence:
  "distinct (map fst sp) \<Longrightarrow> distinct (map fst (notePresence squad sp))"
  by (simp add: notePresence_def Let_def AList.distinct_update split: option.splits)

lemma distinct_fold_notePresence:
  "distinct (map fst sp) \<Longrightarrow> distinct (map fst (fold notePresence sqs sp))"
  by (induction sqs arbitrary: sp) (simp_all add: distinct_notePresence)

lemma updateTerritory_result:
  assumes wf: "wellFormedMap (gameMap s)" and dt: "0 \<le> dt"
  shows "\<exists>s'. updateTerritory dt s = Inr s' \<and> wellFormedMap (gameMap s') \<and>
           (\<forall>x y. tileStep (gameMap s) (gameMap s') x y)"
proof -
  have d: "distinct (map fst (squadPositionsOf s))"
    unfolding squadPositionsOf_def by (rule distinct_fold_notePresence) simp
  from captureTiles_result[OF dt wf d]
  obtain s' where s': "captureTiles dt (squadPositionsOf s) s = Inr s'"
    "wellFormedMap (gameMap s')"
    and rel: "\<And>x y. if (x, y) \<in> fst ` set (squadPositionsOf s)
               then tileStep (gameMap s) (gameMap s') x y
               else tileAt (gameMap s') x y = tileAt (gameMap s) x y"
    by blast
  have "tileStep (gameMap s) (gameMap s') x y" for x y
    using rel[of x y] by (auto simp: tileStep_same split: if_splits)
  with s' show ?thesis by (auto simp: updateTerritory_def)
qed

lemma tileStep_props:
  assumes "\<forall>x y. tileStep m m' x y" and "progressInRange m"
  shows "progressInRange m'" and "ownerChangesAtFull m m'"
proof -
  show "progressInRange m'"
    unfolding progressInRange_def
  proof (intro allI impI)
    fix x y t' assume t': "tileAt m' x y = Some t'"
    from assms(1) have ts: "tileStep m m' x y" by blast
    with t' obtain t where t: "tileAt m x y = Some t" "stepOK t t'"
      by (auto simp: tileStep_def split: option.splits)
    with assms(2) show "0 \<le> captureProgress t' \<and> captureProgress t' \<le> 100"
      by (auto simp: progressInRange_def stepOK_def)
  qed
  show "ownerChangesAtFull m m'"
    unfolding ownerChangesAtFull_def
  proof (intro allI impI)
    fix x y t t'
    assume a: "tileAt m x y = Some t \<and> tileAt m' x y = Some t' \<and> tile_ownerId t' \<noteq> tile_ownerId t"
    from assms(1) have "tileStep m m' x y" by blast
    with a have "stepOK t t'" by (auto simp: tileStep_def)
    with a show "captureProgress t' = 100" by (simp add: stepOK_def)
  qed
qed

lemma executeSpawnSelection_tileStep:
  assumes wf: "wellFormedMap (gameMap s)"
    and r: "executeSpawnSelection uuid playerId x y s = Inr s'"
  shows "tileStep (gameMap s) (gameMap s') x' y'"
proof (cases "map_of (players s) playerId")
  case None
  with r have "s' = s" by (simp add: executeSpawnSelection_def)
  then show ?thesis by (simp add: tileStep_same)
next
  case (Some player)
  show ?thesis
  proof (cases "tileAt (gameMap s) x y")
    case None
    from claimTiles_result[OF wf, of playerId x y "windowOffsets 2"]
    obtain m1 where m1: "claimTiles playerId x y (windowOffsets 2) (gameMap s) = Inr m1"
      and t1: "\<And>x' y'. tileAt m1 x' y' =
              map_option (\<lambda>t. if (x' - x, y' - y) \<in> set (windowOffsets 2) \<and> terrain t \<noteq> Mountain
                               then claimed playerId t else t) (tileAt (gameMap s) x' y')"
      by blast
    from t1[of x y] None have "tileAt m1 x y = None" by simp
    with Some m1 r show ?thesis by (simp add: executeSpawnSelection_def Let_def)
  next
    case (Some t0)
    from executeSpawnSelection_result[OF wf \<open>map_of (players s) playerId = Some player\<close> Some, of uuid]
      r
    have t: "tileAt (gameMap s') x' y' =
        map_option (\<lambda>t.
          if x' = x \<and> y' = y
          then (if terrain t \<noteq> Mountain then claimed playerId t else t)
                 \<lparr>structureType := Some Castle, structureHp := BUILDING_HP Castle\<rparr>
          else if \<bar>x' - x\<bar> \<le> 2 \<and> \<bar>y' - y\<bar> \<le> 2 \<and> terrain t \<noteq> Mountain
               then claimed playerId t else t) (tileAt (gameMap s) x' y')"
      by auto
    show ?thesis
      unfolding tileStep_def t
      by (cases "tileAt (gameMap s) x' y'")
         (auto simp: stepOK_def claimed_def CAPTURE_THRESHOLD_def)
  qed
qed

lemma eliminatePlayer_tiles:
  "tileAt (gameMap (eliminatePlayer playerId s)) x y = tileAt (gameMap s) x y \<or>
   tileAt (gameMap (eliminatePlayer playerId s)) x y =
     map_option (clearTerritory playerId) (tileAt (gameMap s) x y)"
proof (cases "map_of (players s) playerId")
  case None
  then show ?thesis by (simp add: eliminatePlayer_def)
next
  case (Some player)
  show ?thesis
  proof (cases "alive player")
    case True
    from eliminatePlayer_result(6)[OF Some True] show ?thesis by simp
  next
    case False
    with Some show ?thesis by (simp add: eliminatePlayer_def)
  qed
qed

lemma clearTerritory_progress:
  "captureProgress (clearTerritory playerId t) = (if tile_ownerId t = Some playerId then 0 else captureProgress t)"
  "tile_ownerId (clearTerritory playerId t) = (if tile_ownerId t = Some playerId then None else tile_ownerId t)"
  by (simp_all add: clearTerritory_def Let_def)

text \<open>
  C3 (as amended). On a well-formed map whose capture progress lies in \<open>[0,100]\<close> on every
  tile, and for a tick duration that is not negative: the territory update and spawn
  selection keep every progress in \<open>[0,100]\<close> and change a tile's owner only to leave its
  progress at 100; elimination keeps every progress in \<open>[0,100]\<close> and changes an owner only
  by clearing it, with the progress reset to 0.
\<close>

theorem capture_progress_bounds:
  assumes wf: "wellFormedMap (gameMap s)" and inr: "progressInRange (gameMap s)" and dt: "0 \<le> dt"
  shows "(\<exists>s'. updateTerritory dt s = Inr s' \<and> progressInRange (gameMap s')
               \<and> ownerChangesAtFull (gameMap s) (gameMap s'))
       \<and> (\<forall>uuid playerId x y s'. executeSpawnSelection uuid playerId x y s = Inr s' \<longrightarrow>
               progressInRange (gameMap s') \<and> ownerChangesAtFull (gameMap s) (gameMap s'))
       \<and> (\<forall>playerId. progressInRange (gameMap (eliminatePlayer playerId s))
               \<and> ownerClearedAtZero (gameMap s) (gameMap (eliminatePlayer playerId s)))"
proof (intro conjI allI impI)
  from updateTerritory_result[OF wf dt]
  obtain s' where s': "updateTerritory dt s = Inr s'"
    and ts: "\<forall>x y. tileStep (gameMap s) (gameMap s') x y" by blast
  from tileStep_props[OF ts inr] s'
  show "\<exists>s'. updateTerritory dt s = Inr s' \<and> progressInRange (gameMap s')
               \<and> ownerChangesAtFull (gameMap s) (gameMap s')" by blast
next
  fix uuid playerId x y s'
  assume r: "executeSpawnSelection uuid playerId x y s = Inr s'"
  have ts: "\<forall>x' y'. tileStep (gameMap s) (gameMap s') x' y'"
    using executeSpawnSelection_tileStep[OF wf r] by blast
  from tileStep_props[OF ts inr]
  show "progressInRange (gameMap s')" "ownerChangesAtFull (gameMap s) (gameMap s')" by blast+
next
  fix playerId
  let ?m' = "gameMap (eliminatePlayer playerId s)"
  show "progressInRange ?m'"
    unfolding progressInRange_def
  proof (intro allI impI)
    fix x y t' assume t': "tileAt ?m' x y = Some t'"
    have "\<exists>t. tileAt (gameMap s) x y = Some t \<and> (t' = t \<or> t' = clearTerritory playerId t)"
      using eliminatePlayer_tiles[of playerId s x y] t'
      by (cases "tileAt (gameMap s) x y") auto
    then obtain t where t: "tileAt (gameMap s) x y = Some t" "t' = t \<or> t' = clearTerritory playerId t"
      by blast
    with inr have "0 \<le> captureProgress t \<and> captureProgress t \<le> 100"
      by (auto simp: progressInRange_def)
    with t(2) show "0 \<le> captureProgress t' \<and> captureProgress t' \<le> 100"
      by (auto simp: clearTerritory_progress)
  qed
  show "ownerClearedAtZero (gameMap s) ?m'"
    unfolding ownerClearedAtZero_def
  proof (intro allI impI)
    fix x y t t'
    assume a: "tileAt (gameMap s) x y = Some t \<and> tileAt ?m' x y = Some t' \<and>
               tile_ownerId t' \<noteq> tile_ownerId t"
    then have "t' = t \<or> t' = clearTerritory playerId t"
      using eliminatePlayer_tiles[of playerId s x y] by auto
    with a show "tile_ownerId t' = None \<and> captureProgress t' = 0"
      by (auto simp: clearTerritory_progress split: if_splits)
  qed
qed

lemma castleMatch_tiles:
  "tileAt (gameMap castleMatch) x y = Some t \<Longrightarrow>
     (x = 0 \<and> y = 0 \<and> t = (newTile Plains 0 0)
                                \<lparr>tile_ownerId := Some ''b'', structureType := Some Castle,
                                 structureHp := 20, captureProgress := 100,
                                 tile_connected := True\<rparr>)
     \<or> (x = 1 \<and> y = 0 \<and> t = newTile Plains 1 0)"
proof -
  assume a: "tileAt (gameMap castleMatch) x y = Some t"
  then have "y = 0" "x = 0 \<or> x = 1"
    by (auto simp: castleMatch_def tileAt_def split: if_splits)
  with a show ?thesis
    by (auto simp: castleMatch_def tileAt_def)
qed

theorem capture_progress_bounds_witness:
  "wellFormedMap (gameMap castleMatch) \<and> progressInRange (gameMap castleMatch)
   \<and> (0::real) \<le> 1 / 10
   \<and> (\<exists>s'. updateTerritory (1 / 10) castleMatch = Inr s' \<and> progressInRange (gameMap s')
          \<and> ownerChangesAtFull (gameMap castleMatch) (gameMap s'))
   \<and> progressInRange (gameMap (eliminatePlayer ''b'' castleMatch))"
proof -
  have 1: "progressInRange (gameMap castleMatch)"
    unfolding progressInRange_def
  proof (intro allI impI)
    fix x y t assume "tileAt (gameMap castleMatch) x y = Some t"
    from castleMatch_tiles[OF this]
    show "0 \<le> captureProgress t \<and> captureProgress t \<le> 100"
      by (auto simp: newTile_def)
  qed
  have 2: "(0::real) \<le> 1 / 10" by simp
  from capture_progress_bounds[OF castleMatch_wellFormed 1 2]
  show ?thesis using castleMatch_wellFormed 1 2 by blast
qed

text \<open>
  C3 as stated fails where a castle is destroyed: the owner of the castle tile changes
  (to none) within the tick and its capture progress is 0, not 100.
\<close>

theorem elimination_clears_owner_at_zero_progress:
  "map_option (\<lambda>t. (tile_ownerId t, captureProgress t)) (tileAt (gameMap castleMatch) 0 0)
     = Some (Some ''b'', 100)
   \<and> (case attackEnemyStructures ramSquad (1 / 5) castleMatch of
         Inl e \<Rightarrow> None
       | Inr s' \<Rightarrow> map_option (\<lambda>t. (tile_ownerId t, captureProgress t)) (tileAt (gameMap s') 0 0))
     = Some (None, 0)"
  by (simp add: castleMatch_def ramSquad_def squadAt_def attackEnemyStructures_def Let_def
      tileAt_def updateTile_def newTile_def truthy_def structureDamage_def rosterOf_def newMatch_def
      eliminatePlayer_def joined_def clearTerritory_def removeSquad_def)

subsection \<open>Pathfinding: the binary heap and the search loop\<close>

lemma length_swapAt [simp]: "length (swapAt xs i j) = length xs"
  by (simp add: swapAt_def)

lemma mset_swapAt: "i < length xs \<Longrightarrow> j < length xs \<Longrightarrow> mset (swapAt xs i j) = mset xs"
  unfolding swapAt_def by (simp add: mset_swap)

lemma bubbleUp_mset_length:
  "i < length data \<Longrightarrow> mset (bubbleUp data i) = mset data \<and> length (bubbleUp data i) = length data"
proof (induction data i rule: bubbleUp.induct)
  case (1 data i)
  show ?case
  proof (cases "i > 0 \<and> node_f (data ! i) < node_f (data ! ((i - 1) div 2))")
    case True
    then have p: "(i - 1) div 2 < length data" using "1.prems" by simp
    have "mset (bubbleUp (swapAt data i ((i - 1) div 2)) ((i - 1) div 2))
            = mset (swapAt data i ((i - 1) div 2)) \<and>
          length (bubbleUp (swapAt data i ((i - 1) div 2)) ((i - 1) div 2))
            = length (swapAt data i ((i - 1) div 2))"
      using "1.IH"[of "(i - 1) div 2"] True p by simp
    then show ?thesis
      using True "1.prems" p by (subst bubbleUp.simps, subst (2) bubbleUp.simps) (simp add: mset_swapAt Let_def)
  next
    case False
    then show ?thesis by (subst bubbleUp.simps, subst (2) bubbleUp.simps) (auto simp: Let_def)
  qed
qed

lemma sinkDown_unfold:
  "sinkDown data i =
     (if smallestOf data i \<noteq> i
      then sinkDown (swapAt data i (smallestOf data i)) (smallestOf data i) else data)"
  unfolding smallestOf_def by (subst sinkDown.simps) (simp only: Let_def)

lemma smallestOf_cases:
  "smallestOf data i = i \<or>
   (smallestOf data i = 2 * i + 1 \<and> 2 * i + 1 < length data) \<or>
   (smallestOf data i = 2 * i + 2 \<and> 2 * i + 2 < length data)"
  by (auto simp: smallestOf_def Let_def)

lemma sinkDown_mset_length:
  "mset (sinkDown data i) = mset data \<and> length (sinkDown data i) = length data"
proof (induction "length data - i" arbitrary: data i rule: less_induct)
  case less
  show ?case
  proof (cases "smallestOf data i \<noteq> i")
    case True
    with smallestOf_cases[of data i]
    have lt: "smallestOf data i < length data" "i < smallestOf data i" by auto
    then have "length (swapAt data i (smallestOf data i)) - smallestOf data i < length data - i"
      by simp
    from less[OF this]
    have "mset (sinkDown (swapAt data i (smallestOf data i)) (smallestOf data i))
            = mset (swapAt data i (smallestOf data i)) \<and>
          length (sinkDown (swapAt data i (smallestOf data i)) (smallestOf data i))
            = length (swapAt data i (smallestOf data i))" .
    then show ?thesis using True lt
      by (subst sinkDown_unfold, subst (2) sinkDown_unfold) (simp add: mset_swapAt)
  next
    case False
    then show ?thesis by (subst sinkDown_unfold, subst (2) sinkDown_unfold) simp
  qed
qed

lemma MinHeap_push_mset:
  "mset (MinHeap_push data item) = add_mset item (mset data)"
  "length (MinHeap_push data item) = Suc (length data)"
  using bubbleUp_mset_length[of "length data" "data @ [item]"]
  by (simp_all add: MinHeap_push_def)

lemma MinHeap_pop_nonempty:
  assumes "data \<noteq> []"
  shows "\<exists>rest. MinHeap_pop data = Some (data ! 0, rest) \<and> mset data = add_mset (data ! 0) (mset rest)"
proof -
  from assms obtain ys z where d: "data = ys @ [z]" by (metis append_butlast_last_id)
  show ?thesis
  proof (cases ys)
    case Nil
    then show ?thesis by (simp add: d MinHeap_pop_def)
  next
    case (Cons y ys')
    have "MinHeap_pop data = Some (y, sinkDown (z # ys') 0)"
      by (simp add: d Cons MinHeap_pop_def Let_def)
    moreover have "mset (sinkDown (z # ys') 0) = mset (z # ys')"
      using sinkDown_mset_length[of "z # ys'" 0] by simp
    ultimately show ?thesis by (simp add: d Cons)
  qed
qed

lemma relaxNeighbors_fold:
  "relaxNeighbors endX endY current visited ns st = fold (relaxStep endX endY current visited) ns st"
proof (induction ns arbitrary: st)
  case Nil
  then show ?case by simp
next
  case (Cons n ns)
  obtain nx ny c where n: "n = (nx, ny, c)" by (cases n)
  obtain openSet cf gs where st: "st = (openSet, cf, gs)" by (cases st)
  show ?case
    using Cons.IH by (simp add: n st relaxStep_def Let_def)
qed

lemma passableNeighborsIn_wellFormed:
  assumes wf: "wellFormedMap m"
  shows "\<exists>ns. passableNeighborsIn m x y ds = Inr ns \<and>
           ns = map (\<lambda>(dx, dy). (x + dx, y + dy,
                       neighborCost (the (tileAt m (x + dx) (y + dy)))))
                  (filter (\<lambda>(dx, dy). \<exists>t. tileAt m (x + dx) (y + dy) = Some t \<and> terrain t \<noteq> Mountain) ds)"
proof (induction ds)
  case Nil
  then show ?case by simp
next
  case (Cons d ds)
  obtain dx dy where d: "d = (dx, dy)" by (cases d)
  from Cons obtain ns where ns: "passableNeighborsIn m x y ds = Inr ns"
    "ns = map (\<lambda>(dx, dy). (x + dx, y + dy,
                       neighborCost (the (tileAt m (x + dx) (y + dy)))))
                  (filter (\<lambda>(dx, dy). \<exists>t. tileAt m (x + dx) (y + dy) = Some t \<and> terrain t \<noteq> Mountain) ds)"
    by blast
  show ?case
  proof (cases "tileAt m (x + dx) (y + dy)")
    case None
    with tileAt_wellFormed[OF wf, of "x + dx" "y + dy"]
    have "x + dx < 0 \<or> y + dy < 0 \<or> x + dx \<ge> width m \<or> y + dy \<ge> height m" by auto
    with ns None show ?thesis by (simp add: d Let_def)
  next
    case (Some t)
    with tileAt_wellFormed[OF wf, of "x + dx" "y + dy"]
    have "\<not> (x + dx < 0 \<or> y + dy < 0 \<or> x + dx \<ge> width m \<or> y + dy \<ge> height m)" by auto
    with ns Some show ?thesis by (simp add: d Let_def)
  qed
qed

lemma chainIn_mono: "chainIn V cf start k n \<Longrightarrow> V \<subseteq> V' \<Longrightarrow> chainIn V' cf start k n"
  by (induction rule: chainIn.induct) (auto intro: chainIn.intros)

lemma chainIn_cong:
  "chainIn V cf start k n \<Longrightarrow> (\<forall>k \<in> V. map_of cf' k = map_of cf k) \<Longrightarrow> chainIn V cf' start k n"
  by (induction rule: chainIn.induct) (auto intro: chainIn.intros)

lemma reconstructPath_chain:
  "chainIn V cf start k n \<Longrightarrow>
     \<exists>pre. reconstructPath cf start k acc = Some (Inr (pre @ acc)) \<and> length pre = n"
proof (induction arbitrary: acc rule: chainIn.induct)
  case (chain_start V cf start)
  then show ?case by (subst reconstructPath.simps) simp
next
  case (chain_step k start V cf p n)
  from chain_step.IH[of "k # acc"] obtain pre where
    pre: "reconstructPath cf start p (k # acc) = Some (Inr (pre @ k # acc))" "length pre = n"
    by blast
  have "reconstructPath cf start k acc = Some (Inr ((pre @ [k]) @ acc))"
    using chain_step.hyps pre(1) by (subst reconstructPath.simps) simp
  with pre(2) show ?case by (intro exI[of _ "pre @ [k]"]) simp
qed

lemma set_MinHeap_push: "set (MinHeap_push data item) = insert item (set data)"
proof -
  have "set_mset (mset (MinHeap_push data item)) = set_mset (add_mset item (mset data))"
    by (simp only: MinHeap_push_mset)
  then show ?thesis by simp
qed

lemma relaxStep_relaxInv:
  assumes "relaxInv start V cf0 st" and "(node_x current, node_y current) \<in> V" and "V = set visited"
  shows "relaxInv start V cf0 (relaxStep endX endY current visited n st)"
proof -
  obtain nx ny c where n: "n = (nx, ny, c)" by (cases n)
  obtain os cf gs where st: "st = (os, cf, gs)" by (cases st)
  show ?thesis
    using assms
    by (auto simp: n st relaxStep_def relaxInv_def Let_def set_MinHeap_push nodeKey_def
             AList.update_conv' split: option.splits if_splits)
qed

lemma fold_relaxStep_relaxInv:
  assumes "relaxInv start V cf0 st" and "(node_x current, node_y current) \<in> V" and "V = set visited"
  shows "relaxInv start V cf0 (fold (relaxStep endX endY current visited) ns st)"
  using assms(1)
proof (induction ns arbitrary: st)
  case Nil
  then show ?case by simp
next
  case (Cons n ns)
  from relaxStep_relaxInv[OF Cons.prems assms(2,3)]
  have "relaxInv start V cf0 (relaxStep endX endY current visited n st)" .
  from Cons.IH[OF this] show ?case by simp
qed

lemma searchInv_expand:
  assumes inv: "searchInv start openSet cf visited"
    and pop: "MinHeap_pop openSet = Some (current, openSet1)"
    and nv: "nodeKey current \<notin> set visited"
    and rel: "relaxNeighbors endX endY current (visited @ [nodeKey current]) ns (openSet1, cf, gs)
                = (openSet2, cf2, gs2)"
  shows "searchInv start openSet2 cf2 (visited @ [nodeKey current])"
proof -
  let ?k = "nodeKey current"
  let ?V = "set (visited @ [?k])"
  from pop have ne: "openSet \<noteq> []" by (auto simp: MinHeap_pop_def split: if_splits)
  from MinHeap_pop_nonempty[OF ne] pop
  have ms: "mset openSet = add_mset current (mset openSet1)" by auto
  then have cur: "current \<in> set openSet" and sub: "set openSet1 \<subseteq> set openSet"
    by (metis union_single_eq_member set_mset_mset, metis mset_subset_eqD mset_subset_eq_add_mset_cancel set_mset_mset subsetI subset_mset.order_refl insert_iff set_mset_add_mset_insert)
  from inv have i1: "\<forall>e \<in> set openSet. nodeKey e = start \<or> map_of cf (nodeKey e) \<noteq> None"
    and i2: "\<forall>k p. map_of cf k = Some p \<longrightarrow> p \<in> set visited"
    and i3: "\<forall>v \<in> set visited. \<exists>n. chainIn (set visited) cf start v n"
    unfolding searchInv_def by blast+
  have r0: "relaxInv start ?V cf (openSet1, cf, gs)"
    using i1 i2 sub by (auto simp: relaxInv_def)
  have kV: "(node_x current, node_y current) \<in> ?V" by (simp add: nodeKey_def)
  have "relaxInv start ?V cf (openSet2, cf2, gs2)"
    using fold_relaxStep_relaxInv[OF r0 kV refl, of endX endY ns] rel
    by (simp add: relaxNeighbors_fold nodeKey_def)
  then have j1: "\<forall>e \<in> set openSet2. nodeKey e = start \<or> map_of cf2 (nodeKey e) \<noteq> None"
    and j2: "\<forall>k p. map_of cf2 k = Some p \<longrightarrow> p \<in> ?V"
    and j3: "\<forall>k \<in> ?V. map_of cf2 k = map_of cf k"
    unfolding relaxInv_def by auto
  have chk: "\<exists>n. chainIn ?V cf start ?k n"
  proof (cases "?k = start")
    case True
    then show ?thesis by (auto intro: chainIn.intros)
  next
    case False
    with i1 cur obtain p where p: "map_of cf ?k = Some p" by auto
    with i2 have "p \<in> set visited" by blast
    with i3 obtain n where "chainIn (set visited) cf start p n" by blast
    then have "chainIn ?V cf start p n" by (rule chainIn_mono) auto
    with False p have "chainIn ?V cf start ?k (Suc n)" by (intro chain_step) auto
    then show ?thesis by blast
  qed
  have j4: "\<forall>v \<in> ?V. \<exists>n. chainIn ?V cf2 start v n"
  proof
    fix v assume "v \<in> ?V"
    then have "\<exists>n. chainIn ?V cf start v n"
    proof (cases "v = ?k")
      case True
      with chk show ?thesis by simp
    next
      case False
      with \<open>v \<in> ?V\<close> have "v \<in> set visited" by auto
      with i3 obtain n where "chainIn (set visited) cf start v n" by blast
      then have "chainIn ?V cf start v n" by (rule chainIn_mono) auto
      then show ?thesis by blast
    qed
    then obtain n where "chainIn ?V cf start v n" by blast
    then have "chainIn ?V cf2 start v n" using j3 by (rule chainIn_cong)
    then show "\<exists>n. chainIn ?V cf2 start v n" by blast
  qed
  show ?thesis unfolding searchInv_def using j1 j2 j4 by blast
qed

lemma searchInv_skip:
  assumes inv: "searchInv start openSet cf visited"
    and pop: "MinHeap_pop openSet = Some (current, openSet1)"
  shows "searchInv start openSet1 cf visited"
proof -
  from pop have ne: "openSet \<noteq> []" by (auto simp: MinHeap_pop_def split: if_splits)
  from MinHeap_pop_nonempty[OF ne] pop
  have ms: "mset openSet = add_mset current (mset openSet1)" by auto
  have sub: "set openSet1 \<subseteq> set openSet"
  proof
    fix e assume "e \<in> set openSet1"
    then have "e \<in># mset openSet1" by simp
    then have "e \<in># mset openSet" by (simp add: ms)
    then show "e \<in> set openSet" by simp
  qed
  with inv show ?thesis unfolding searchInv_def by blast
qed

lemma MinHeap_pop_Some:
  assumes "MinHeap_pop openSet = Some (current, rest)"
  shows "openSet \<noteq> []" "current = openSet ! 0" "mset openSet = add_mset current (mset rest)"
    "current \<in> set openSet" "set rest \<subseteq> set openSet"
proof -
  from assms show ne: "openSet \<noteq> []" by (auto simp: MinHeap_pop_def split: if_splits)
  from MinHeap_pop_nonempty[OF ne] assms
  show c: "current = openSet ! 0" and ms: "mset openSet = add_mset current (mset rest)" by auto
  from ne c show "current \<in> set openSet" by simp
  show "set rest \<subseteq> set openSet"
  proof
    fix e assume "e \<in> set rest"
    then have "e \<in># mset rest" by simp
    then have "e \<in># mset openSet" by (simp add: ms)
    then show "e \<in> set openSet" by simp
  qed
qed

lemma findPath_loop_rule:
  assumes init: "I steps openSet cf gs visited"
    and exit: "\<And>steps openSet cf gs visited.
        I steps openSet cf gs visited \<Longrightarrow> \<not> (length openSet > 0 \<and> steps < maxSteps) \<Longrightarrow>
        Q (Some (Inr None))"
    and found: "\<And>steps openSet cf gs visited current openSet1.
        I steps openSet cf gs visited \<Longrightarrow> length openSet > 0 \<Longrightarrow> steps < maxSteps \<Longrightarrow>
        MinHeap_pop openSet = Some (current, openSet1) \<Longrightarrow> nodeKey current = endKey \<Longrightarrow>
        Q (case reconstructPath cf startKey endKey [] of
             None \<Rightarrow> None
           | Some (Inl e) \<Rightarrow> Some (Inl e)
           | Some (Inr pth) \<Rightarrow> Some (Inr (Some pth)))"
    and skip: "\<And>steps openSet cf gs visited current openSet1.
        I steps openSet cf gs visited \<Longrightarrow> length openSet > 0 \<Longrightarrow> steps < maxSteps \<Longrightarrow>
        MinHeap_pop openSet = Some (current, openSet1) \<Longrightarrow> nodeKey current \<noteq> endKey \<Longrightarrow>
        nodeKey current \<in> set visited \<Longrightarrow>
        I (steps + 1) openSet1 cf gs visited"
    and expand: "\<And>steps openSet cf gs visited current openSet1.
        I steps openSet cf gs visited \<Longrightarrow> length openSet > 0 \<Longrightarrow> steps < maxSteps \<Longrightarrow>
        MinHeap_pop openSet = Some (current, openSet1) \<Longrightarrow> nodeKey current \<noteq> endKey \<Longrightarrow>
        nodeKey current \<notin> set visited \<Longrightarrow>
        \<exists>ns. getPassableNeighbors m (node_x current) (node_y current) = Inr ns \<and>
          (\<forall>openSet2 cf2 gs2.
             relaxNeighbors (fst endKey) (snd endKey) current (visited @ [nodeKey current]) ns
               (openSet1, cf, gs) = (openSet2, cf2, gs2) \<longrightarrow>
             I (steps + 1) openSet2 cf2 gs2 (visited @ [nodeKey current]))"
  shows "Q (findPath_loop m startKey endKey maxSteps steps openSet cf gs visited)"
  using init
proof (induction "maxSteps - steps" arbitrary: steps openSet cf gs visited rule: less_induct)
  case less
  note I = less.prems
  show ?case
  proof (cases "length openSet > 0 \<and> steps < maxSteps")
    case False
    then have "findPath_loop m startKey endKey maxSteps steps openSet cf gs visited = Some (Inr None)"
      by (subst findPath_loop.simps) (simp only: False if_False)
    with exit[OF I False] show ?thesis by simp
  next
    case True
    then have ne: "openSet \<noteq> []" and lt: "steps < maxSteps" by auto
    from MinHeap_pop_nonempty[OF ne] obtain openSet1 where
      pop: "MinHeap_pop openSet = Some (openSet ! 0, openSet1)" by blast
    define current where "current = openSet ! 0"
    note pop = pop[folded current_def]
    have m: "maxSteps - (steps + 1) < maxSteps - steps" using lt by simp
    show ?thesis
    proof (cases "nodeKey current = endKey")
      case e: True
      have "findPath_loop m startKey endKey maxSteps steps openSet cf gs visited =
            (case reconstructPath cf startKey endKey [] of
             None \<Rightarrow> None
           | Some (Inl e) \<Rightarrow> Some (Inl e)
           | Some (Inr pth) \<Rightarrow> Some (Inr (Some pth)))"
        using True pop e by (subst findPath_loop.simps) (simp add: nodeKey_def Let_def)
      with found[OF I _ lt pop e] True show ?thesis by simp
    next
      case e: False
      show ?thesis
      proof (cases "nodeKey current \<in> set visited")
        case v: True
        have "findPath_loop m startKey endKey maxSteps steps openSet cf gs visited =
              findPath_loop m startKey endKey maxSteps (steps + 1) openSet1 cf gs visited"
          using True pop e v by (subst findPath_loop.simps) (simp add: nodeKey_def Let_def)
        moreover from skip[OF I _ lt pop e v] True
        have "I (steps + 1) openSet1 cf gs visited" by simp
        from less.hyps[OF m this]
        have "Q (findPath_loop m startKey endKey maxSteps (steps + 1) openSet1 cf gs visited)" .
        ultimately show ?thesis by simp
      next
        case v: False
        from expand[OF I _ lt pop e v] True obtain ns where
          ns: "getPassableNeighbors m (node_x current) (node_y current) = Inr ns"
          and nxt: "\<And>openSet2 cf2 gs2.
             relaxNeighbors (fst endKey) (snd endKey) current (visited @ [nodeKey current]) ns
               (openSet1, cf, gs) = (openSet2, cf2, gs2) \<Longrightarrow>
             I (steps + 1) openSet2 cf2 gs2 (visited @ [nodeKey current])"
          by auto
        obtain openSet2 cf2 gs2 where
          rel: "relaxNeighbors (fst endKey) (snd endKey) current (visited @ [nodeKey current]) ns
               (openSet1, cf, gs) = (openSet2, cf2, gs2)"
          by (metis prod_cases3)
        have "findPath_loop m startKey endKey maxSteps steps openSet cf gs visited =
              findPath_loop m startKey endKey maxSteps (steps + 1) openSet2 cf2 gs2
                (visited @ [nodeKey current])"
          using True pop e v ns rel
          by (subst findPath_loop.simps) (simp add: nodeKey_def Let_def)
        moreover from less.hyps[OF m nxt[OF rel]]
        have "Q (findPath_loop m startKey endKey maxSteps (steps + 1) openSet2 cf2 gs2
                (visited @ [nodeKey current]))" .
        ultimately show ?thesis by simp
      qed
    qed
  qed
qed

lemma getPassableNeighbors_wellFormed:
  "wellFormedMap m \<Longrightarrow> \<exists>ns. getPassableNeighbors m x y = Inr ns"
  using passableNeighborsIn_wellFormed[of m x y directions]
  by (auto simp: getPassableNeighbors_def)

lemma findPath_loop_total:
  assumes wf: "wellFormedMap m" and ne: "startKey \<noteq> endKey"
    and inv: "searchInv startKey openSet cf visited"
  shows "\<exists>r. findPath_loop m startKey endKey maxSteps steps openSet cf gs visited = Some (Inr r)"
proof (rule findPath_loop_rule[where I = "\<lambda>steps openSet cf gs visited. searchInv startKey openSet cf visited"
      and Q = "\<lambda>res. \<exists>r. res = Some (Inr r)"])
  show "searchInv startKey openSet cf visited" by (rule inv)
next
  show "\<exists>r. Some (Inr None) = Some (Inr r)" by simp
next
  fix openSet cf visited current openSet1
  assume inv: "searchInv startKey openSet cf visited"
    and pop: "MinHeap_pop openSet = Some (current, openSet1)"
    and e: "nodeKey current = endKey"
  from MinHeap_pop_Some(4)[OF pop] inv e ne
  obtain p where p: "map_of cf endKey = Some p" unfolding searchInv_def by force
  with inv have "p \<in> set visited" unfolding searchInv_def by blast
  with inv obtain n where "chainIn (set visited) cf startKey p n" unfolding searchInv_def by blast
  from reconstructPath_chain[OF this, of "[endKey]"]
  obtain pre where "reconstructPath cf startKey p [endKey] = Some (Inr (pre @ [endKey]))" by blast
  then have "reconstructPath cf startKey endKey [] = Some (Inr (pre @ [endKey]))"
    using p ne by (subst reconstructPath.simps) simp
  then show "\<exists>r. (case reconstructPath cf startKey endKey [] of
             None \<Rightarrow> None
           | Some (Inl e) \<Rightarrow> Some (Inl e)
           | Some (Inr pth) \<Rightarrow> Some (Inr (Some pth))) = Some (Inr r)" by simp
next
  fix openSet cf visited current openSet1
  assume "searchInv startKey openSet cf visited" "MinHeap_pop openSet = Some (current, openSet1)"
  then show "searchInv startKey openSet1 cf visited" by (rule searchInv_skip)
next
  fix openSet cf gs visited current openSet1
  assume inv: "searchInv startKey openSet cf visited"
    and pop: "MinHeap_pop openSet = Some (current, openSet1)"
    and v: "nodeKey current \<notin> set visited"
  from getPassableNeighbors_wellFormed[OF wf] obtain ns where
    ns: "getPassableNeighbors m (node_x current) (node_y current) = Inr ns" by blast
  have "searchInv startKey openSet2 cf2 (visited @ [nodeKey current])"
    if "relaxNeighbors (fst endKey) (snd endKey) current (visited @ [nodeKey current]) ns
               (openSet1, cf, gs) = (openSet2, cf2, gs2)" for openSet2 cf2 gs2
    using inv pop v that by (rule searchInv_expand)
  with ns show "\<exists>ns. getPassableNeighbors m (node_x current) (node_y current) = Inr ns \<and>
          (\<forall>openSet2 cf2 gs2.
             relaxNeighbors (fst endKey) (snd endKey) current (visited @ [nodeKey current]) ns
               (openSet1, cf, gs) = (openSet2, cf2, gs2) \<longrightarrow>
             searchInv startKey openSet2 cf2 (visited @ [nodeKey current]))" by blast
qed

lemma MinHeap_push_single: "MinHeap_push [] item = [item]"
  by (simp add: MinHeap_push_def) (subst bubbleUp.simps, simp)

lemma findPath_total:
  assumes wf: "wellFormedMap m"
  shows "\<exists>r. findPath m startX startY endX endY maxSteps = Some (Inr r)"
proof (cases "startX = endX \<and> startY = endY")
  case True
  then show ?thesis by (simp add: findPath_def)
next
  case False
  then have ne: "(startX, startY) \<noteq> (endX, endY)" by auto
  have inv: "searchInv (startX, startY)
      [\<lparr>node_x = startX, node_y = startY,
        node_f = real_of_int (\<bar>endX - startX\<bar> + \<bar>endY - startY\<bar>), node_g = 0\<rparr>] [] []"
    by (simp add: searchInv_def nodeKey_def)
  from findPath_loop_total[OF wf ne inv]
  show ?thesis using False
    by (auto simp: findPath_def MinHeap_push_single split: option.splits)
qed

subsection \<open>C2: a command whose preconditions fail changes nothing\<close>



lemma isValidSpawn_true_numeric:
  assumes "isValidSpawn m x y es = Inr True"
  shows "x \<noteq> None \<and> y \<noteq> None"
  using assms by (auto simp: isValidSpawn_def split: if_splits option.splits)












subsection \<open>Pathfinding: the heap order and the search on open plains\<close>

lemma isHeap_root_min:
  assumes "isHeap data"
  shows "i < length data \<Longrightarrow> node_f (data ! 0) \<le> node_f (data ! i)"
proof (induction i rule: less_induct)
  case (less i)
  show ?case
  proof (cases "i = 0")
    case True
    then show ?thesis by simp
  next
    case False
    then have p: "(i - 1) div 2 < i" by simp
    with less.prems have "(i - 1) div 2 < length data" by simp
    from less.IH[OF p this] assms less.prems False show ?thesis
      unfolding isHeap_def by force
  qed
qed

lemma nth_swapAt:
  "i < length xs \<Longrightarrow> j < length xs \<Longrightarrow> k < length xs \<Longrightarrow>
   swapAt xs i j ! k = (if k = j then xs ! i else if k = i then xs ! j else xs ! k)"
  by (simp add: swapAt_def nth_list_update)

lemma bubbleUp_isHeap:
  "i < length data \<Longrightarrow> heapExcept data i \<Longrightarrow> isHeap (bubbleUp data i)"
proof (induction data i rule: bubbleUp.induct)
  case (1 data i)
  show ?case
  proof (cases "i > 0")
    case False
    with 1(3) have "isHeap data" unfolding heapExcept_def isHeap_def by simp
    with False show ?thesis by (subst bubbleUp.simps) simp
  next
    case True
    let ?p = "(i - 1) div 2"
    have pi: "?p < i" using True by simp
    have plen: "?p < length data" using pi 1(2) by simp
    show ?thesis
    proof (cases "node_f (data ! i) < node_f (data ! ?p)")
      case False
      have "isHeap data" unfolding isHeap_def
      proof (intro allI impI)
        fix j assume j: "j < length data" "0 < j"
        show "node_f (data ! ((j - 1) div 2)) \<le> node_f (data ! j)"
        proof (cases "j = i")
          case True
          with False show ?thesis by simp
        next
          case False
          with 1(3) j show ?thesis unfolding heapExcept_def by blast
        qed
      qed
      with False True show ?thesis by (subst bubbleUp.simps) (simp add: Let_def)
    next
      case lt: True
      let ?d = "swapAt data i ?p"
      have A: "\<And>j. j < length data \<Longrightarrow> 0 < j \<Longrightarrow> j \<noteq> i \<Longrightarrow>
                 node_f (data ! ((j - 1) div 2)) \<le> node_f (data ! j)"
        using 1(3) unfolding heapExcept_def by blast
      have B: "\<And>j. j < length data \<Longrightarrow> 0 < j \<Longrightarrow> (j - 1) div 2 = i \<Longrightarrow>
                 node_f (data ! ?p) \<le> node_f (data ! j)"
        using 1(3) True unfolding heapExcept_def by blast
      have nth: "\<And>k. k < length data \<Longrightarrow>
                   ?d ! k = (if k = ?p then data ! i else if k = i then data ! ?p else data ! k)"
        using nth_swapAt[OF 1(2) plen] by simp
      have "heapExcept ?d ?p"
        unfolding heapExcept_def
      proof (intro conjI allI impI)
        fix j assume j: "j < length ?d" "0 < j" "j \<noteq> ?p"
        then have jl: "j < length data" by simp
        have pj: "(j - 1) div 2 < j" using j by simp
        then have pjl: "(j - 1) div 2 < length data" using jl by simp
        show "node_f (?d ! ((j - 1) div 2)) \<le> node_f (?d ! j)"
        proof (cases "j = i")
          case True
          then show ?thesis using lt nth[OF jl] nth[OF pjl] pi by simp
        next
          case ji: False
          show ?thesis
          proof (cases "(j - 1) div 2 = i")
            case True
            then show ?thesis using B[OF jl j(2)] nth[OF jl] nth[OF pjl] ji j(3) pi by simp
          next
            case npi: False
            show ?thesis
            proof (cases "(j - 1) div 2 = ?p")
              case True
              then show ?thesis using A[OF jl j(2) ji] lt nth[OF jl] nth[OF pjl] ji j(3) by simp
            next
              case False
              then show ?thesis using A[OF jl j(2) ji] nth[OF jl] nth[OF pjl] ji j(3) npi by simp
            qed
          qed
        qed
      next
        fix j assume j: "j < length ?d" "0 < j" "(j - 1) div 2 = ?p" "0 < ?p"
        then have jl: "j < length data" by simp
        let ?pp = "(?p - 1) div 2"
        have ppp: "?pp < ?p" using j(4) by simp
        then have ppl: "?pp < length data" using plen by simp
        have ppne: "?pp \<noteq> i" "?pp \<noteq> ?p" using ppp pi by simp_all
        have pp: "?d ! ?pp = data ! ?pp" using nth[OF ppl] ppne by simp
        have pge: "node_f (data ! ?pp) \<le> node_f (data ! ?p)"
          using A[OF plen j(4)] pi by simp
        have "(j - 1) div 2 < j" using j(2) by simp
        then have jp: "j \<noteq> ?p" unfolding j(3) by simp
        show "node_f (?d ! ?pp) \<le> node_f (?d ! j)"
        proof (cases "j = i")
          case True
          then show ?thesis using pp pge nth[OF jl] pi by simp
        next
          case False
          have c: "node_f (data ! ?p) \<le> node_f (data ! j)"
            using A[OF jl j(2) False] unfolding j(3) .
          have "?d ! j = data ! j" using nth[OF jl] False jp by simp
          then show ?thesis using pp pge c by simp
        qed
      qed
      then have he: "heapExcept ?d ?p" .
      have pl': "?p < length ?d" using plen by simp
      have "isHeap (bubbleUp ?d ?p)" by (rule 1(1)[OF True refl lt pl' he])
      with True lt show ?thesis by (subst bubbleUp.simps) (simp add: Let_def)
    qed
  qed
qed

lemma MinHeap_push_isHeap:
  assumes "isHeap data"
  shows "isHeap (MinHeap_push data item)"
proof -
  have "heapExcept (data @ [item]) (length data)"
    unfolding heapExcept_def
  proof (intro conjI allI impI)
    fix j assume j: "j < length (data @ [item])" "0 < j" "j \<noteq> length data"
    then have jl: "j < length data" by simp
    then have "(j - 1) div 2 < length data" by simp
    with assms jl j(2) show "node_f ((data @ [item]) ! ((j - 1) div 2)) \<le> node_f ((data @ [item]) ! j)"
      unfolding isHeap_def by (simp add: nth_append)
  next
    fix j assume j: "j < length (data @ [item])" "0 < j" "(j - 1) div 2 = length data"
    then have False by simp
    then show "node_f ((data @ [item]) ! ((length data - 1) div 2)) \<le> node_f ((data @ [item]) ! j)" ..
  qed
  then show ?thesis unfolding MinHeap_push_def by (intro bubbleUp_isHeap) simp_all
qed

lemma smallestOf_le:
  assumes "smallestOf data i = s"
  shows "node_f (data ! s) \<le> node_f (data ! i)"
    "2 * i + 1 < length data \<Longrightarrow> node_f (data ! s) \<le> node_f (data ! (2 * i + 1))"
    "2 * i + 2 < length data \<Longrightarrow> node_f (data ! s) \<le> node_f (data ! (2 * i + 2))"
  using assms by (auto simp: smallestOf_def Let_def split: if_splits)

lemma child_cases: "0 < (j::nat) \<Longrightarrow> (j - 1) div 2 = i \<Longrightarrow> j = 2 * i + 1 \<or> j = 2 * i + 2"
  by presburger

lemma sinkDown_isHeap:
  "heapBelow data i \<Longrightarrow> isHeap (sinkDown data i)"
proof (induction "length data - i" arbitrary: data i rule: less_induct)
  case less
  let ?s = "smallestOf data i"
  have A: "\<And>j. j < length data \<Longrightarrow> 0 < j \<Longrightarrow> (j - 1) div 2 \<noteq> i \<Longrightarrow>
             node_f (data ! ((j - 1) div 2)) \<le> node_f (data ! j)"
    using less.prems unfolding heapBelow_def by blast
  have B: "\<And>j. j < length data \<Longrightarrow> 0 < j \<Longrightarrow> (j - 1) div 2 = i \<Longrightarrow> 0 < i \<Longrightarrow>
             node_f (data ! ((i - 1) div 2)) \<le> node_f (data ! j)"
    using less.prems unfolding heapBelow_def by blast
  note sl = smallestOf_le[where data = data and i = i, OF refl]
  show ?case
  proof (cases "?s = i")
    case True
    have "isHeap data" unfolding isHeap_def
    proof (intro allI impI)
      fix j assume j: "j < length data" "0 < j"
      show "node_f (data ! ((j - 1) div 2)) \<le> node_f (data ! j)"
      proof (cases "(j - 1) div 2 = i")
        case False
        then show ?thesis using A[OF j] by simp
      next
        case pj: True
        from child_cases[OF j(2) pj] show ?thesis
        proof
          assume "j = 2 * i + 1"
          with sl(2) j(1) True pj show ?thesis by simp
        next
          assume "j = 2 * i + 2"
          with sl(3) j(1) True pj show ?thesis by simp
        qed
      qed
    qed
    with True show ?thesis by (subst sinkDown_unfold) simp
  next
    case False
    with smallestOf_cases[of data i]
    have sc: "(?s = 2 * i + 1 \<or> ?s = 2 * i + 2)" and slen: "?s < length data" by auto
    then have is0: "i < ?s" and ilen: "i < length data" and spos: "0 < ?s"
      and sp: "(?s - 1) div 2 = i" by auto
    let ?d = "swapAt data i ?s"
    have nth: "\<And>k. k < length data \<Longrightarrow>
                 ?d ! k = (if k = ?s then data ! i else if k = i then data ! ?s else data ! k)"
      using nth_swapAt[OF ilen slen] by simp
    have "heapBelow ?d ?s" unfolding heapBelow_def
    proof (intro conjI allI impI)
      fix j assume j: "j < length ?d" "0 < j" "(j - 1) div 2 \<noteq> ?s"
      then have jl: "j < length data" by simp
      have pj: "(j - 1) div 2 < j" using j by simp
      then have pjl: "(j - 1) div 2 < length data" using jl by simp
      show "node_f (?d ! ((j - 1) div 2)) \<le> node_f (?d ! j)"
      proof (cases "(j - 1) div 2 = i")
        case pji: True
        have dp: "?d ! ((j - 1) div 2) = data ! ?s" unfolding pji using nth[OF ilen] is0 by simp
        from child_cases[OF j(2) pji] have jc: "j = 2 * i + 1 \<or> j = 2 * i + 2" .
        show ?thesis
        proof (cases "j = ?s")
          case True
          then have "?d ! j = data ! i" using nth[OF jl] by simp
          with dp sl(1) show ?thesis by simp
        next
          case False
          have "j \<noteq> i" using pj pji by simp
          then have dj: "?d ! j = data ! j" using nth[OF jl] False by simp
          from jc have "node_f (data ! ?s) \<le> node_f (data ! j)"
          proof
            assume "j = 2 * i + 1"
            with sl(2) jl show ?thesis by simp
          next
            assume "j = 2 * i + 2"
            with sl(3) jl show ?thesis by simp
          qed
          with dp dj show ?thesis by simp
        qed
      next
        case npi: False
        have dp: "?d ! ((j - 1) div 2) = data ! ((j - 1) div 2)"
          using nth[OF pjl] npi j(3) by simp
        have js: "j \<noteq> ?s" using npi sp by auto
        show ?thesis
        proof (cases "j = i")
          case True
          then have ipos: "0 < i" using j(2) by simp
          have dj: "?d ! j = data ! ?s" using nth[OF jl] True is0 by simp
          from B[OF slen spos sp ipos] dp dj True show ?thesis by simp
        next
          case False
          then have "?d ! j = data ! j" using nth[OF jl] js by simp
          with dp A[OF jl j(2) npi] show ?thesis by simp
        qed
      qed
    next
      fix j assume j: "j < length ?d" "0 < j" "(j - 1) div 2 = ?s" "0 < ?s"
      then have jl: "j < length data" by simp
      have "(j - 1) div 2 < j" using j(2) by simp
      then have sj: "?s < j" unfolding j(3) .
      have dj: "?d ! j = data ! j" using nth[OF jl] sj is0 by simp
      have dp: "?d ! ((?s - 1) div 2) = data ! ?s" unfolding sp using nth[OF ilen] is0 by simp
      have "(j - 1) div 2 \<noteq> i" unfolding j(3) using is0 by simp
      from A[OF jl j(2) this] have "node_f (data ! ?s) \<le> node_f (data ! j)" unfolding j(3) .
      with dj dp show "node_f (?d ! ((?s - 1) div 2)) \<le> node_f (?d ! j)" by simp
    qed
    then have hb: "heapBelow ?d ?s" .
    have lt: "length ?d - ?s < length data - i" using is0 slen by simp
    have "isHeap (sinkDown ?d ?s)" by (rule less.hyps[OF lt hb])
    with False show ?thesis by (subst sinkDown_unfold) simp
  qed
qed

lemma MinHeap_pop_isHeap:
  assumes h: "isHeap data" and p: "MinHeap_pop data = Some (tp, rest)"
  shows "isHeap rest" "\<forall>e \<in> set data. node_f tp \<le> node_f e"
proof -
  from p have ne: "data \<noteq> []" by (auto simp: MinHeap_pop_def split: if_splits)
  from p ne have tp: "tp = data ! 0" by (auto simp: MinHeap_pop_def Let_def split: if_splits)
  show "\<forall>e \<in> set data. node_f tp \<le> node_f e"
    using isHeap_root_min[OF h] unfolding tp by (auto simp: in_set_conv_nth)
  show "isHeap rest"
  proof (cases "length (butlast data) > 0")
    case False
    then have "length (butlast data) = 0" by blast
    then have "butlast data = []" by (simp only: length_0_conv)
    with p ne have "rest = []" by (simp add: MinHeap_pop_def Let_def)
    then show ?thesis by (simp add: isHeap_def)
  next
    case True
    let ?d = "(butlast data)[0 := last data]"
    from True have "butlast data \<noteq> []" by (cases "butlast data") simp_all
    with p ne have rest: "rest = sinkDown ?d 0"
      by (simp add: MinHeap_pop_def Let_def)
    have "heapBelow ?d 0" unfolding heapBelow_def
    proof (intro conjI allI impI)
      fix j assume j: "j < length ?d" "0 < j" "(j - 1) div 2 \<noteq> 0"
      then have jl: "j < length data - 1" by simp
      have pj: "(j - 1) div 2 < j" using j(2) by simp
      have "?d ! j = data ! j" using j jl by (simp add: nth_butlast)
      moreover have "?d ! ((j - 1) div 2) = data ! ((j - 1) div 2)"
        using j pj jl by (simp add: nth_butlast)
      moreover have "node_f (data ! ((j - 1) div 2)) \<le> node_f (data ! j)"
        using h jl j(2) unfolding isHeap_def by simp
      ultimately show "node_f (?d ! ((j - 1) div 2)) \<le> node_f (?d ! j)" by simp
    next
      fix j assume "(0::nat) < 0"
      then show "node_f (?d ! ((0 - 1) div 2)) \<le> node_f (?d ! j)" by simp
    qed
    then show ?thesis unfolding rest by (rule sinkDown_isHeap)
  qed
qed

lemma tileDist_simps:
  "tileDist a a = 0" "0 \<le> tileDist a b" "tileDist a b = tileDist b a"
  "tileDist a c \<le> tileDist a b + tileDist b c"
  "(tileDist a b = 0) = (a = b)"
  by (auto simp: tileDist_def manhattanDistance_def prod_eq_iff)

lemma tileDist_pred:
  assumes "onMap m s" "onMap m u" "u \<noteq> s"
  shows "\<exists>p. onMap m p \<and> tileDist p u = 1 \<and> tileDist s p = tileDist s u - 1"
proof (cases "fst u = fst s")
  case False
  let ?p = "(if fst u < fst s then fst u + 1 else fst u - 1, snd u)"
  have "onMap m ?p \<and> tileDist ?p u = 1 \<and> tileDist s ?p = tileDist s u - 1"
    using assms False by (auto simp: onMap_def tileDist_def manhattanDistance_def)
  then show ?thesis by blast
next
  case True
  with assms(3) have ne: "snd u \<noteq> snd s" by (auto simp: prod_eq_iff)
  let ?p = "(fst u, if snd u < snd s then snd u + 1 else snd u - 1)"
  have "onMap m ?p \<and> tileDist ?p u = 1 \<and> tileDist s ?p = tileDist s u - 1"
    using assms True ne by (auto simp: onMap_def tileDist_def manhattanDistance_def)
  then show ?thesis by blast
qed

lemma tileAt_allPlains:
  assumes "allPlains m" "tileAt m x y = Some t"
  shows "terrain t = Plains" "neighborCost t = 1"
proof -
  from assms(2) have y: "0 \<le> y" "nat y < length (tiles m)" and x: "0 \<le> x" "nat x < length (tiles m ! nat y)"
    and t: "t = tiles m ! nat y ! nat x"
    by (auto simp: tileAt_def split: if_splits)
  from assms(1) y have "list_all (\<lambda>t. terrain t = Plains \<and> structureType t \<noteq> Some Road) (tiles m ! nat y)"
    by (simp add: allPlains_def list_all_length)
  with x t have "terrain t = Plains \<and> structureType t \<noteq> Some Road" by (simp add: list_all_length)
  then show "terrain t = Plains" "neighborCost t = 1" by (simp_all add: neighborCost_def)
qed

lemma getPassableNeighbors_allPlains:
  assumes wf: "wellFormedMap m" and ap: "allPlains m"
  shows "getPassableNeighbors m x y =
           Inr (map (\<lambda>(dx, dy). (x + dx, y + dy, 1))
                  (filter (\<lambda>(dx, dy). onMap m (x + dx, y + dy)) directions))"
proof -
  from passableNeighborsIn_wellFormed[OF wf, of x y directions]
  have g: "getPassableNeighbors m x y =
     Inr (map (\<lambda>(dx, dy). (x + dx, y + dy, neighborCost (the (tileAt m (x + dx) (y + dy)))))
            (filter (\<lambda>(dx, dy). \<exists>t. tileAt m (x + dx) (y + dy) = Some t \<and> terrain t \<noteq> Mountain)
               directions))"
    by (auto simp: getPassableNeighbors_def)
  have f: "(\<exists>t. tileAt m a b = Some t \<and> terrain t \<noteq> Mountain) = onMap m (a, b)" for a b
    using tileAt_wellFormed[OF wf, of a b] tileAt_allPlains(1)[OF ap, of a b]
    by (auto simp: onMap_def)
  have c: "onMap m (a, b) \<Longrightarrow> neighborCost (the (tileAt m a b)) = 1" for a b
    using tileAt_wellFormed[OF wf, of a b] tileAt_allPlains(2)[OF ap, of a b]
    by (auto simp: onMap_def)
  show ?thesis unfolding g f
    by (rule arg_cong[where f = Inr], rule map_cong[OF refl]) (auto simp: c)
qed

lemma coreInvD:
  assumes "coreInv m start goal V E cf0 L (openSet, cf, gs)"
  shows "isHeap openSet" "length openSet \<le> L"
    "\<And>e. e \<in> set openSet \<Longrightarrow> onMap m (nodeKey e)"
    "\<And>e. e \<in> set openSet \<Longrightarrow> node_f e = node_g e + real_of_int (tileDist (nodeKey e) goal)"
    "\<And>e. e \<in> set openSet \<Longrightarrow> \<exists>g. map_of gs (nodeKey e) = Some g \<and> g \<le> node_g e"
    "\<And>e. e \<in> set openSet \<Longrightarrow> nodeKey e = start \<or> map_of cf (nodeKey e) \<noteq> None"
    "\<And>k g. map_of gs k = Some g \<Longrightarrow> onMap m k"
    "\<And>k g. map_of gs k = Some g \<Longrightarrow> real_of_int (tileDist start k) \<le> g"
    "\<And>k g. k \<notin> V \<Longrightarrow> map_of gs k = Some g \<Longrightarrow> \<exists>e \<in> set openSet. nodeKey e = k \<and> node_g e = g"
    "\<And>k p. map_of cf k = Some p \<Longrightarrow> p \<in> V"
    "\<And>k p. map_of cf k = Some p \<Longrightarrow> map_of gs k = Some (real_of_int (tileDist start p) + 1)"
    "\<And>v. v \<in> V \<Longrightarrow> map_of gs v = Some (real_of_int (tileDist start v))"
    "\<And>v. v \<in> V \<Longrightarrow> map_of cf v = map_of cf0 v"
    "\<And>v n. (v, n) \<in> E \<Longrightarrow>
        n \<in> V \<or> (\<exists>g. map_of gs n = Some g \<and> g \<le> real_of_int (tileDist start v) + 1)"
    "map_of gs start = Some 0"
proof -
  note a = assms[unfolded coreInv_def prod.case]
  show "isHeap openSet" "length openSet \<le> L" "map_of gs start = Some 0" using a by blast+
  show "\<And>e. e \<in> set openSet \<Longrightarrow> onMap m (nodeKey e)" using a by blast
  show "\<And>e. e \<in> set openSet \<Longrightarrow> node_f e = node_g e + real_of_int (tileDist (nodeKey e) goal)"
    using a by blast
  show "\<And>e. e \<in> set openSet \<Longrightarrow> \<exists>g. map_of gs (nodeKey e) = Some g \<and> g \<le> node_g e"
    using a by blast
  show "\<And>e. e \<in> set openSet \<Longrightarrow> nodeKey e = start \<or> map_of cf (nodeKey e) \<noteq> None"
    using a by blast
  show "\<And>k g. map_of gs k = Some g \<Longrightarrow> onMap m k" using a by blast
  show "\<And>k g. map_of gs k = Some g \<Longrightarrow> real_of_int (tileDist start k) \<le> g" using a by blast
  show "\<And>k g. k \<notin> V \<Longrightarrow> map_of gs k = Some g \<Longrightarrow> \<exists>e \<in> set openSet. nodeKey e = k \<and> node_g e = g"
    using a by blast
  show "\<And>k p. map_of cf k = Some p \<Longrightarrow> p \<in> V" using a by blast
  show "\<And>k p. map_of cf k = Some p \<Longrightarrow> map_of gs k = Some (real_of_int (tileDist start p) + 1)"
    using a by blast
  show "\<And>v. v \<in> V \<Longrightarrow> map_of gs v = Some (real_of_int (tileDist start v))" using a by blast
  show "\<And>v. v \<in> V \<Longrightarrow> map_of cf v = map_of cf0 v" using a by blast
  show "\<And>v n. (v, n) \<in> E \<Longrightarrow>
        n \<in> V \<or> (\<exists>g. map_of gs n = Some g \<and> g \<le> real_of_int (tileDist start v) + 1)"
    using a by blast
qed

lemma coreInvI:
  assumes "isHeap openSet" "length openSet \<le> L"
    "\<And>e. e \<in> set openSet \<Longrightarrow> onMap m (nodeKey e)"
    "\<And>e. e \<in> set openSet \<Longrightarrow> node_f e = node_g e + real_of_int (tileDist (nodeKey e) goal)"
    "\<And>e. e \<in> set openSet \<Longrightarrow> \<exists>g. map_of gs (nodeKey e) = Some g \<and> g \<le> node_g e"
    "\<And>e. e \<in> set openSet \<Longrightarrow> nodeKey e = start \<or> map_of cf (nodeKey e) \<noteq> None"
    "\<And>k g. map_of gs k = Some g \<Longrightarrow> onMap m k"
    "\<And>k g. map_of gs k = Some g \<Longrightarrow> real_of_int (tileDist start k) \<le> g"
    "\<And>k g. k \<notin> V \<Longrightarrow> map_of gs k = Some g \<Longrightarrow> \<exists>e \<in> set openSet. nodeKey e = k \<and> node_g e = g"
    "\<And>k p. map_of cf k = Some p \<Longrightarrow> p \<in> V"
    "\<And>k p. map_of cf k = Some p \<Longrightarrow> map_of gs k = Some (real_of_int (tileDist start p) + 1)"
    "\<And>v. v \<in> V \<Longrightarrow> map_of gs v = Some (real_of_int (tileDist start v))"
    "\<And>v. v \<in> V \<Longrightarrow> map_of cf v = map_of cf0 v"
    "\<And>v n. (v, n) \<in> E \<Longrightarrow>
        n \<in> V \<or> (\<exists>g. map_of gs n = Some g \<and> g \<le> real_of_int (tileDist start v) + 1)"
    "map_of gs start = Some 0"
  shows "coreInv m start goal V E cf0 L (openSet, cf, gs)"
  unfolding coreInv_def prod.case
proof (intro conjI ballI allI impI)
  fix x assume "x \<in> E"
  then show "case x of (v, n) \<Rightarrow>
      n \<in> V \<or> (\<exists>g. map_of gs n = Some g \<and> g \<le> real_of_int (tileDist start v) + 1)"
    using assms(14) by (cases x) simp
qed (use assms in blast)+

lemma relaxStep_coreInv:
  assumes inv: "coreInv m start goal V E cf0 L (openSet, cf, gs)"
    and cV: "nodeKey current \<in> V"
    and cg: "node_g current = real_of_int (tileDist start (nodeKey current))"
    and n1: "onMap m (nx, ny)" and n2: "tileDist (nodeKey current) (nx, ny) = 1"
    and vis: "set visited = V"
  shows "coreInv m start goal V (insert (nodeKey current, (nx, ny)) E) cf0 (Suc L)
           (relaxStep (fst goal) (snd goal) current visited (nx, ny, 1) (openSet, cf, gs))"
proof -
  note d = coreInvD[OF inv]
  let ?c = "nodeKey current"
  let ?nk = "(nx, ny)"
  let ?t = "node_g current + 1"
  have same: "coreInv m start goal V (insert (?c, ?nk) E) cf0 (Suc L) (openSet, cf, gs)"
    if edge: "?nk \<in> V \<or> (\<exists>g. map_of gs ?nk = Some g \<and> g \<le> real_of_int (tileDist start ?c) + 1)"
  proof (rule coreInvI)
    show "length openSet \<le> Suc L" using d(2) by simp
    show "\<And>v n. (v, n) \<in> insert (?c, ?nk) E \<Longrightarrow>
        n \<in> V \<or> (\<exists>g. map_of gs n = Some g \<and> g \<le> real_of_int (tileDist start v) + 1)"
      using edge d(14) by blast
  qed (use d in blast)+
  show ?thesis
  proof (cases "?nk \<in> V")
    case True
    then have "relaxStep (fst goal) (snd goal) current visited (nx, ny, 1) (openSet, cf, gs)
                 = (openSet, cf, gs)"
      by (simp add: relaxStep_def vis)
    with same True show ?thesis by simp
  next
    case nV: False
    show ?thesis
    proof (cases "case map_of gs ?nk of None \<Rightarrow> True | Some existingG \<Rightarrow> ?t < existingG")
      case False
      then obtain ex where ex: "map_of gs ?nk = Some ex" "ex \<le> ?t"
        by (auto split: option.splits)
      from False nV have "relaxStep (fst goal) (snd goal) current visited (nx, ny, 1) (openSet, cf, gs)
                 = (openSet, cf, gs)"
        by (simp add: relaxStep_def vis Let_def)
      moreover have "?nk \<in> V \<or> (\<exists>g. map_of gs ?nk = Some g \<and> g \<le> real_of_int (tileDist start ?c) + 1)"
        using ex cg by simp
      ultimately show ?thesis using same by simp
    next
      case imp: True
      define e' where "e' = \<lparr>node_x = nx, node_y = ny,
                       node_f = ?t + real_of_int (\<bar>fst goal - nx\<bar> + \<bar>snd goal - ny\<bar>),
                       node_g = ?t\<rparr>"
      define os' where "os' = MinHeap_push openSet e'"
      define cf' where "cf' = AList.update ?nk (node_x current, node_y current) cf"
      define gs' where "gs' = AList.update ?nk ?t gs"
      have rs: "relaxStep (fst goal) (snd goal) current visited (nx, ny, 1) (openSet, cf, gs)
                 = (os', cf', gs')"
        using imp nV by (simp add: relaxStep_def vis Let_def os'_def cf'_def gs'_def e'_def)
      have og: "\<And>ex. map_of gs ?nk = Some ex \<Longrightarrow> ?t < ex" using imp by simp
      have mgs: "\<And>k. map_of gs' k = (if k = ?nk then Some ?t else map_of gs k)"
        by (simp add: gs'_def update_conv')
      have mcf: "\<And>k. map_of cf' k = (if k = ?nk then Some ?c else map_of cf k)"
        by (simp add: cf'_def update_conv' nodeKey_def)
      have sos: "set os' = insert e' (set openSet)" by (simp add: os'_def set_MinHeap_push)
      have ke: "nodeKey e' = ?nk" "node_g e' = ?t"
        "node_f e' = node_g e' + real_of_int (tileDist (nodeKey e') goal)"
        by (simp_all add: e'_def nodeKey_def tileDist_def manhattanDistance_def abs_minus_commute)
      have tri: "real_of_int (tileDist start ?nk) \<le> ?t"
      proof -
        have "tileDist start ?nk \<le> tileDist start ?c + tileDist ?c ?nk" by (rule tileDist_simps(4))
        then have "real_of_int (tileDist start ?nk) \<le> real_of_int (tileDist start ?c + 1)"
          unfolding n2 by (simp only: of_int_le_iff)
        then show ?thesis using cg by simp
      qed
      have tpos: "0 < ?t" using cg tileDist_simps(2)[of start ?c] by simp
      have "coreInv m start goal V (insert (?c, ?nk) E) cf0 (Suc L) (os', cf', gs')"
      proof (rule coreInvI)
        show "isHeap os'" unfolding os'_def by (rule MinHeap_push_isHeap[OF d(1)])
        show "length os' \<le> Suc L" using d(2) by (simp add: os'_def MinHeap_push_mset(2))
      next
        fix e assume e: "e \<in> set os'"
        show "onMap m (nodeKey e)" using e d(3) n1 ke(1) unfolding sos by auto
        show "node_f e = node_g e + real_of_int (tileDist (nodeKey e) goal)"
          using e d(4) ke(3) unfolding sos by auto
        show "\<exists>g. map_of gs' (nodeKey e) = Some g \<and> g \<le> node_g e"
        proof (cases "e = e'")
          case True
          then show ?thesis using ke mgs by simp
        next
          case False
          with e have eo: "e \<in> set openSet" unfolding sos by simp
          from d(5)[OF eo] obtain g where g: "map_of gs (nodeKey e) = Some g" "g \<le> node_g e" by blast
          show ?thesis
          proof (cases "nodeKey e = ?nk")
            case True
            with g og[of g] show ?thesis using mgs by simp
          next
            case False
            with g show ?thesis using mgs by simp
          qed
        qed
        show "nodeKey e = start \<or> map_of cf' (nodeKey e) \<noteq> None"
          using e d(6) ke(1) mcf unfolding sos by auto
      next
        fix k g assume kg: "map_of gs' k = Some g"
        show "onMap m k" using kg d(7)[of k g] n1 mgs by (auto split: if_splits)
        show "real_of_int (tileDist start k) \<le> g"
          using kg d(8)[of k g] tri mgs by (auto split: if_splits)
      next
        fix k g assume kg: "k \<notin> V" "map_of gs' k = Some g"
        show "\<exists>e \<in> set os'. nodeKey e = k \<and> node_g e = g"
        proof (cases "k = ?nk")
          case True
          with kg(2) mgs have "g = ?t" by simp
          with True ke show ?thesis unfolding sos by blast
        next
          case False
          with kg(2) mgs have "map_of gs k = Some g" by simp
          from d(9)[OF kg(1) this] show ?thesis unfolding sos by blast
        qed
      next
        fix k p assume kp: "map_of cf' k = Some p"
        show "p \<in> V" using kp d(10)[of k p] cV mcf by (auto split: if_splits)
        show "map_of gs' k = Some (real_of_int (tileDist start p) + 1)"
          using kp d(11)[of k p] cg mcf mgs by (auto split: if_splits)
      next
        fix v assume v: "v \<in> V"
        with nV have "v \<noteq> ?nk" by blast
        then show "map_of gs' v = Some (real_of_int (tileDist start v))"
          and "map_of cf' v = map_of cf0 v"
          using d(12)[OF v] d(13)[OF v] mgs mcf by simp_all
      next
        fix v n assume vn: "(v, n) \<in> insert (?c, ?nk) E"
        show "n \<in> V \<or> (\<exists>g. map_of gs' n = Some g \<and> g \<le> real_of_int (tileDist start v) + 1)"
        proof (cases "n = ?nk")
          case True
          show ?thesis
          proof (cases "v = ?c")
            case True
            with \<open>n = ?nk\<close> mgs cg show ?thesis by simp
          next
            case False
            with vn have "(v, n) \<in> E" by simp
            from d(14)[OF this] nV True obtain g where
              g: "map_of gs ?nk = Some g" "g \<le> real_of_int (tileDist start v) + 1" by blast
            from og[OF g(1)] g(2) True mgs show ?thesis by simp
          qed
        next
          case False
          with vn have "(v, n) \<in> E" by simp
          from d(14)[OF this] False mgs show ?thesis by simp
        qed
      next
        have "start \<noteq> ?nk"
        proof
          assume "start = ?nk"
          with d(15) og[of 0] tpos show False by simp
        qed
        then show "map_of gs' start = Some 0" using d(15) mgs by simp
      qed
      with rs show ?thesis by simp
    qed
  qed
qed

lemma fold_relaxStep_coreInv:
  assumes cV: "nodeKey current \<in> V"
    and cg: "node_g current = real_of_int (tileDist start (nodeKey current))"
    and vis: "set visited = V"
  shows "coreInv m start goal V E cf0 L st \<Longrightarrow>
     (\<forall>(nx, ny, c) \<in> set ns. onMap m (nx, ny) \<and> tileDist (nodeKey current) (nx, ny) = 1 \<and> c = 1) \<Longrightarrow>
     coreInv m start goal V (E \<union> (\<lambda>(nx, ny, c). (nodeKey current, (nx, ny))) ` set ns) cf0
       (L + length ns) (fold (relaxStep (fst goal) (snd goal) current visited) ns st)"
proof (induction ns arbitrary: st E L)
  case Nil
  then show ?case by simp
next
  case (Cons n ns)
  obtain nx ny c where n: "n = (nx, ny, c)" by (cases n)
  obtain openSet cf gs where st: "st = (openSet, cf, gs)" by (cases st)
  from Cons.prems(2) n have n1: "onMap m (nx, ny)" "tileDist (nodeKey current) (nx, ny) = 1" "c = 1"
    by simp_all
  from Cons.prems(2) have rest:
    "\<forall>(nx, ny, c) \<in> set ns. onMap m (nx, ny) \<and> tileDist (nodeKey current) (nx, ny) = 1 \<and> c = 1"
    by simp
  have "coreInv m start goal V (insert (nodeKey current, (nx, ny)) E) cf0 (Suc L)
          (relaxStep (fst goal) (snd goal) current visited n st)"
    unfolding n n1(3) st
    by (rule relaxStep_coreInv[OF Cons.prems(1)[unfolded st] cV cg n1(1,2) vis])
  from Cons.IH[OF this rest]
  show ?case by (simp add: n)
qed

lemma frontier_bound:
  assumes inv: "coreInv m start goal V E cf0 L (openSet, cf, gs)"
    and edges: "\<And>v n. v \<in> V \<Longrightarrow> onMap m n \<Longrightarrow> tileDist v n = 1 \<Longrightarrow> (v, n) \<in> E"
    and s: "onMap m start"
  shows "onMap m u \<Longrightarrow> u \<notin> V \<Longrightarrow>
     \<exists>e \<in> set openSet. node_f e \<le> real_of_int (tileDist start u + tileDist u goal)"
proof (induction "nat (tileDist start u)" arbitrary: u rule: less_induct)
  case less
  note d = coreInvD[OF inv]
  show ?case
  proof (cases "u = start")
    case True
    from d(9)[OF less.prems(2)[unfolded True] d(15)] obtain e where
      e: "e \<in> set openSet" "nodeKey e = start" "node_g e = 0" by blast
    from d(4)[OF e(1)] e(2,3) True
    have "node_f e \<le> real_of_int (tileDist start u + tileDist u goal)"
      by (simp add: tileDist_simps(1))
    with e(1) show ?thesis by blast
  next
    case False
    from tileDist_pred[OF s less.prems(1) False] obtain p where
      p: "onMap m p" "tileDist p u = 1" "tileDist start p = tileDist start u - 1" by blast
    show ?thesis
    proof (cases "p \<in> V")
      case True
      from d(14)[OF edges[OF True less.prems(1) p(2)]] less.prems(2) obtain g where
        g: "map_of gs u = Some g" "g \<le> real_of_int (tileDist start p) + 1" by blast
      from d(8)[OF g(1)] g(2) p(3) have "g = real_of_int (tileDist start u)" by simp
      with d(9)[OF less.prems(2) g(1)] obtain e where
        e: "e \<in> set openSet" "nodeKey e = u" "node_g e = real_of_int (tileDist start u)" by blast
      from d(4)[OF e(1)] e(2,3) have "node_f e = real_of_int (tileDist start u + tileDist u goal)"
        by simp
      then have "node_f e \<le> real_of_int (tileDist start u + tileDist u goal)" by simp
      with e(1) show ?thesis by blast
    next
      case False
      have "0 \<le> tileDist start p" by (rule tileDist_simps(2))
      with p(3) have "nat (tileDist start p) < nat (tileDist start u)" by simp
      from less.hyps[OF this p(1) False] obtain e where
        e: "e \<in> set openSet" "node_f e \<le> real_of_int (tileDist start p + tileDist p goal)" by blast
      have "tileDist p goal \<le> tileDist p u + tileDist u goal" by (rule tileDist_simps(4))
      with p(2,3) have "tileDist start p + tileDist p goal \<le> tileDist start u + tileDist u goal"
        by simp
      then have "real_of_int (tileDist start p + tileDist p goal)
                   \<le> real_of_int (tileDist start u + tileDist u goal)"
        by (simp only: of_int_le_iff)
      with e(2) have "node_f e \<le> real_of_int (tileDist start u + tileDist u goal)" by simp
      with e(1) show ?thesis by blast
    qed
  qed
qed

lemma popped_optimal:
  assumes inv: "coreInv m start goal V E cf0 L (openSet, cf, gs)"
    and edges: "\<And>v n. v \<in> V \<Longrightarrow> onMap m n \<Longrightarrow> tileDist v n = 1 \<Longrightarrow> (v, n) \<in> E"
    and s: "onMap m start"
    and pop: "MinHeap_pop openSet = Some (current, openSet1)"
    and nv: "nodeKey current \<notin> V"
  shows "node_g current = real_of_int (tileDist start (nodeKey current))"
    "map_of gs (nodeKey current) = Some (node_g current)"
proof -
  note d = coreInvD[OF inv]
  from MinHeap_pop_Some(4)[OF pop] have cin: "current \<in> set openSet" .
  from frontier_bound[OF inv edges s d(3)[OF cin] nv] obtain e where
    e: "e \<in> set openSet"
       "node_f e \<le> real_of_int (tileDist start (nodeKey current) + tileDist (nodeKey current) goal)"
    by blast
  from MinHeap_pop_isHeap(2)[OF d(1) pop] e(1) have "node_f current \<le> node_f e" by blast
  with e(2) d(4)[OF cin] have le: "node_g current \<le> real_of_int (tileDist start (nodeKey current))"
    by simp
  from d(5)[OF cin] obtain g where g: "map_of gs (nodeKey current) = Some g" "g \<le> node_g current"
    by blast
  from d(8)[OF g(1)] g(2) le
  show "node_g current = real_of_int (tileDist start (nodeKey current))" by simp
  with d(8)[OF g(1)] g show "map_of gs (nodeKey current) = Some (node_g current)" by simp
qed

lemma coreInv_weaken:
  assumes inv: "coreInv m start goal V E cf0 L (openSet, cf, gs)" and sub: "E' \<subseteq> E"
  shows "coreInv m start goal V E' cf (length openSet) (openSet, cf, gs)"
proof (rule coreInvI)
  note d = coreInvD[OF inv]
  show "\<And>v n. (v, n) \<in> E' \<Longrightarrow>
        n \<in> V \<or> (\<exists>g. map_of gs n = Some g \<and> g \<le> real_of_int (tileDist start v) + 1)"
    using d(14) sub by blast
  show "\<And>v. v \<in> V \<Longrightarrow> map_of cf v = map_of cf v" by simp
  show "length openSet \<le> length openSet" by simp
qed (use coreInvD[OF inv] in blast)+

lemma pop_coreInv:
  assumes inv: "coreInv m start goal V E cf0 L (openSet, cf, gs)"
    and pop: "MinHeap_pop openSet = Some (current, openSet1)"
    and sub: "V \<subseteq> V'" and cV: "nodeKey current \<in> V'"
    and new: "\<And>v. v \<in> V' \<Longrightarrow> v \<notin> V \<Longrightarrow> map_of gs v = Some (real_of_int (tileDist start v))"
  shows "coreInv m start goal V' E cf (length openSet1) (openSet1, cf, gs)"
proof (rule coreInvI)
  note d = coreInvD[OF inv]
  note p = MinHeap_pop_Some[OF pop]
  show "isHeap openSet1" by (rule MinHeap_pop_isHeap(1)[OF d(1) pop])
  show "length openSet1 \<le> length openSet1" by simp
  show "\<And>e. e \<in> set openSet1 \<Longrightarrow> onMap m (nodeKey e)" using d(3) p(5) by blast
  show "\<And>e. e \<in> set openSet1 \<Longrightarrow> node_f e = node_g e + real_of_int (tileDist (nodeKey e) goal)"
    using d(4) p(5) by blast
  show "\<And>e. e \<in> set openSet1 \<Longrightarrow> \<exists>g. map_of gs (nodeKey e) = Some g \<and> g \<le> node_g e"
    using d(5) p(5) by blast
  show "\<And>e. e \<in> set openSet1 \<Longrightarrow> nodeKey e = start \<or> map_of cf (nodeKey e) \<noteq> None"
    using d(6) p(5) by blast
  show "\<And>k g. map_of gs k = Some g \<Longrightarrow> onMap m k" using d(7) by blast
  show "\<And>k g. map_of gs k = Some g \<Longrightarrow> real_of_int (tileDist start k) \<le> g" using d(8) by blast
  show "\<exists>e \<in> set openSet1. nodeKey e = k \<and> node_g e = g"
    if k: "k \<notin> V'" "map_of gs k = Some g" for k g
  proof -
    from k(1) sub have "k \<notin> V" by blast
    from d(9)[OF this k(2)] obtain e where e: "e \<in> set openSet" "nodeKey e = k" "node_g e = g"
      by blast
    from e(2) k(1) cV have "e \<noteq> current" by blast
    moreover from e(1) have "e \<in># mset openSet" by simp
    ultimately have "e \<in># mset openSet1" unfolding p(3) by simp
    with e show ?thesis by auto
  qed
  show "\<And>k p. map_of cf k = Some p \<Longrightarrow> p \<in> V'" using d(10) sub by blast
  show "\<And>k p. map_of cf k = Some p \<Longrightarrow> map_of gs k = Some (real_of_int (tileDist start p) + 1)"
    using d(11) by blast
  show "\<And>v. v \<in> V' \<Longrightarrow> map_of gs v = Some (real_of_int (tileDist start v))"
    using d(12) new by blast
  show "\<And>v. v \<in> V' \<Longrightarrow> map_of cf v = map_of cf v" by simp
  show "\<And>v n. (v, n) \<in> E \<Longrightarrow>
        n \<in> V' \<or> (\<exists>g. map_of gs n = Some g \<and> g \<le> real_of_int (tileDist start v) + 1)"
    using d(14) sub by blast
  show "map_of gs start = Some 0" by (rule d(15))
qed

lemma pop_length:
  assumes "MinHeap_pop openSet = Some (current, openSet1)"
  shows "length openSet = Suc (length openSet1)"
proof -
  have "size (mset openSet) = size (add_mset current (mset openSet1))"
    by (simp only: MinHeap_pop_Some(3)[OF assms])
  then show ?thesis by simp
qed

lemma plainsInv_init:
  assumes s: "onMap m start"
  shows "plainsInv m start goal 0
           (MinHeap_push [] \<lparr>node_x = fst start, node_y = snd start,
                             node_f = real_of_int (\<bar>fst goal - fst start\<bar> + \<bar>snd goal - snd start\<bar>),
                             node_g = 0\<rparr>)
           [] [(start, 0)] []"
proof -
  let ?e = "\<lparr>node_x = fst start, node_y = snd start,
             node_f = real_of_int (\<bar>fst goal - fst start\<bar> + \<bar>snd goal - snd start\<bar>),
             node_g = 0\<rparr>"
  have ke: "nodeKey ?e = start"
    "node_f ?e = node_g ?e + real_of_int (tileDist (nodeKey ?e) goal)"
    by (simp_all add: nodeKey_def tileDist_def manhattanDistance_def abs_minus_commute)
  have "coreInv m start goal {} {} [] (Suc 0) ([?e], [], [(start, 0)])"
  proof (rule coreInvI)
    show "isHeap [?e]" by (simp add: isHeap_def)
    show "\<And>e. e \<in> set [?e] \<Longrightarrow> onMap m (nodeKey e)" using s ke(1) by simp
    show "\<And>e. e \<in> set [?e] \<Longrightarrow> node_f e = node_g e + real_of_int (tileDist (nodeKey e) goal)"
      using ke(2) by simp
    show "\<And>e. e \<in> set [?e] \<Longrightarrow> \<exists>g. map_of [(start, 0::real)] (nodeKey e) = Some g \<and> g \<le> node_g e"
      using ke(1) by simp
    show "\<And>e. e \<in> set [?e] \<Longrightarrow> nodeKey e = start \<or> map_of [] (nodeKey e) \<noteq> None"
      using ke(1) by simp
    show "\<And>k g. map_of [(start, 0::real)] k = Some g \<Longrightarrow> onMap m k"
      using s by (simp split: if_splits)
    show "\<And>k g. map_of [(start, 0::real)] k = Some g \<Longrightarrow> real_of_int (tileDist start k) \<le> g"
      by (auto simp: tileDist_simps(1) split: if_splits)
    show "\<And>k g. k \<notin> {} \<Longrightarrow> map_of [(start, 0::real)] k = Some g \<Longrightarrow>
            \<exists>e \<in> set [?e]. nodeKey e = k \<and> node_g e = g"
      using ke(1) by (auto split: if_splits)
  qed simp_all
  then show ?thesis
    by (simp add: plainsInv_def MinHeap_push_single)
qed

lemma adjacent_direction:
  assumes "tileDist (cx, cy) n = 1"
  shows "\<exists>d \<in> set directions. n = (cx + fst d, cy + snd d)"
proof -
  obtain nx ny where n: "n = (nx, ny)" by (cases n)
  from assms have "\<bar>cx - nx\<bar> + \<bar>cy - ny\<bar> = 1"
    by (simp add: n tileDist_def manhattanDistance_def)
  then have "(nx = cx - 1 \<and> ny = cy) \<or> (nx = cx + 1 \<and> ny = cy) \<or>
             (nx = cx \<and> ny = cy - 1) \<or> (nx = cx \<and> ny = cy + 1)" by presburger
  then show ?thesis by (auto simp: n directions_def)
qed

lemma direction_adjacent:
  assumes "d \<in> set directions"
  shows "tileDist (cx, cy) (cx + fst d, cy + snd d) = 1"
  using assms by (auto simp: directions_def tileDist_def manhattanDistance_def)

lemma plainsInv_skip:
  assumes inv: "plainsInv m start goal steps openSet cf gs visited"
    and pop: "MinHeap_pop openSet = Some (current, openSet1)"
    and cv: "nodeKey current \<in> set visited"
  shows "plainsInv m start goal (steps + 1) openSet1 cf gs visited"
proof -
  note i = inv[unfolded plainsInv_def]
  from i have c: "coreInv m start goal (set visited)
       {(v, n). v \<in> set visited \<and> onMap m n \<and> tileDist v n = 1} cf (length openSet)
       (openSet, cf, gs)" by blast
  have "coreInv m start goal (set visited)
       {(v, n). v \<in> set visited \<and> onMap m n \<and> tileDist v n = 1} cf (length openSet1)
       (openSet1, cf, gs)"
    by (rule pop_coreInv[OF c pop subset_refl cv]) simp
  moreover have "steps + 1 + length openSet1 \<le> 1 + 4 * length visited"
    using i pop_length[OF pop] by simp
  ultimately show ?thesis using i unfolding plainsInv_def by blast
qed

lemma plainsInv_expand:
  assumes wf: "wellFormedMap m" and ap: "allPlains m" and s: "onMap m start"
    and inv: "plainsInv m start goal steps openSet cf gs visited"
    and pop: "MinHeap_pop openSet = Some (current, openSet1)"
    and ng: "nodeKey current \<noteq> goal"
    and nv: "nodeKey current \<notin> set visited"
    and ns: "getPassableNeighbors m (node_x current) (node_y current) = Inr ns"
    and rel: "relaxNeighbors (fst goal) (snd goal) current (visited @ [nodeKey current]) ns
               (openSet1, cf, gs) = (openSet2, cf2, gs2)"
  shows "plainsInv m start goal (steps + 1) openSet2 cf2 gs2 (visited @ [nodeKey current])"
proof -
  let ?c = "nodeKey current"
  let ?V = "set visited"
  let ?V' = "set (visited @ [?c])"
  let ?E = "{(v, n). v \<in> ?V \<and> onMap m n \<and> tileDist v n = 1}"
  note i = inv[unfolded plainsInv_def]
  from i have c: "coreInv m start goal ?V ?E cf (length openSet) (openSet, cf, gs)" by blast
  note d = coreInvD[OF c]
  have edges: "\<And>v n. v \<in> ?V \<Longrightarrow> onMap m n \<Longrightarrow> tileDist v n = 1 \<Longrightarrow> (v, n) \<in> ?E" by simp
  note opt = popped_optimal[OF c edges s pop nv]
  from MinHeap_pop_Some(4)[OF pop] have cin: "current \<in> set openSet" .
  have conmap: "onMap m ?c" by (rule d(3)[OF cin])
  have c1: "coreInv m start goal ?V' ?E cf (length openSet1) (openSet1, cf, gs)"
  proof (rule pop_coreInv[OF c pop])
    show "?V \<subseteq> ?V'" by (simp add: subset_insertI)
    show "?c \<in> ?V'" by simp
    show "map_of gs v = Some (real_of_int (tileDist start v))" if "v \<in> ?V'" "v \<notin> ?V" for v
    proof -
      from that have "v = ?c" by simp
      then show ?thesis using opt(2) by (simp only: opt(1)[symmetric])
    qed
  qed
  have nsq: "ns = map (\<lambda>(dx, dy). (node_x current + dx, node_y current + dy, 1))
                  (filter (\<lambda>(dx, dy). onMap m (node_x current + dx, node_y current + dy)) directions)"
    using ns getPassableNeighbors_allPlains[OF wf ap, of "node_x current" "node_y current"] by simp
  have ck: "?c = (node_x current, node_y current)" by (simp add: nodeKey_def)
  have nsprop: "\<forall>(nx, ny, c) \<in> set ns. onMap m (nx, ny) \<and> tileDist ?c (nx, ny) = 1 \<and> c = 1"
  proof
    fix x assume "x \<in> set ns"
    then obtain dr where dr: "dr \<in> set directions"
      "onMap m (node_x current + fst dr, node_y current + snd dr)"
      "x = (node_x current + fst dr, node_y current + snd dr, 1)"
      unfolding nsq by (auto simp: case_prod_beta)
    from direction_adjacent[OF dr(1), of "node_x current" "node_y current"] dr(2)
    show "case x of (nx, ny, c) \<Rightarrow> onMap m (nx, ny) \<and> tileDist ?c (nx, ny) = 1 \<and> c = 1"
      unfolding dr(3) ck by simp
  qed
  have nslen: "length ns \<le> 4"
  proof -
    have "length ns \<le> length directions" unfolding nsq by simp
    then show ?thesis by (simp add: directions_def)
  qed
  have c2: "coreInv m start goal ?V' (?E \<union> (\<lambda>(nx, ny, c). (?c, (nx, ny))) ` set ns) cf
              (length openSet1 + length ns) (openSet2, cf2, gs2)"
  proof -
    have r: "fold (relaxStep (fst goal) (snd goal) current (visited @ [?c])) ns (openSet1, cf, gs)
               = (openSet2, cf2, gs2)"
      using rel by (simp only: relaxNeighbors_fold)
    have cV': "?c \<in> ?V'" by simp
    from fold_relaxStep_coreInv[OF cV' opt(1) refl c1 nsprop]
    show ?thesis unfolding r .
  qed
  let ?E' = "{(v, n). v \<in> ?V' \<and> onMap m n \<and> tileDist v n = 1}"
  have sub: "?E' \<subseteq> ?E \<union> (\<lambda>(nx, ny, c). (?c, (nx, ny))) ` set ns"
  proof
    fix x assume x: "x \<in> ?E'"
    obtain v n where vn: "x = (v, n)" by (cases x)
    from x vn have v: "v \<in> ?V'" "onMap m n" "tileDist v n = 1" by simp_all
    show "x \<in> ?E \<union> (\<lambda>(nx, ny, c). (?c, (nx, ny))) ` set ns"
    proof (cases "v \<in> ?V")
      case True
      with v vn show ?thesis by simp
    next
      case False
      with v(1) have vc: "v = ?c" by simp
      from adjacent_direction[OF v(3)[unfolded vc ck]] obtain dr where
        dr: "dr \<in> set directions" "n = (node_x current + fst dr, node_y current + snd dr)" by blast
      have "dr \<in> set (filter (\<lambda>(dx, dy). onMap m (node_x current + dx, node_y current + dy))
                            directions)"
        using dr v(2) by (simp add: case_prod_beta)
      then have "(\<lambda>(dx, dy). (node_x current + dx, node_y current + dy, 1::real)) dr \<in> set ns"
        unfolding nsq by (simp only: set_map image_eqI)
      then have "(fst n, snd n, 1) \<in> set ns" using dr(2) by (simp add: case_prod_beta)
      then have "(\<lambda>(nx, ny, c). (?c, (nx, ny))) (fst n, snd n, 1::real)
                   \<in> (\<lambda>(nx, ny, c). (?c, (nx, ny))) ` set ns" by (rule imageI)
      then have "(?c, n) \<in> (\<lambda>(nx, ny, c). (?c, (nx, ny))) ` set ns" by simp
      with vn vc show ?thesis by simp
    qed
  qed
  have c3: "coreInv m start goal ?V' ?E' cf2 (length openSet2) (openSet2, cf2, gs2)"
    by (rule coreInv_weaken[OF c2 sub])
  note d2 = coreInvD[OF c2]
  have agree: "\<And>v. v \<in> ?V' \<Longrightarrow> map_of cf2 v = map_of cf v" by (rule d2(13))
  have chain_old: "chainIn ?V' cf2 start v (nat (tileDist start v))" if "v \<in> ?V" for v
  proof -
    from i that have "chainIn ?V cf start v (nat (tileDist start v))" by blast
    then have "chainIn ?V' cf start v (nat (tileDist start v))"
      by (rule chainIn_mono) auto
    then show ?thesis by (rule chainIn_cong) (use agree in blast)
  qed
  have chain_new: "chainIn ?V' cf2 start ?c (nat (tileDist start ?c))"
  proof (cases "?c = start")
    case True
    then show ?thesis by (simp add: tileDist_simps(1) chainIn.chain_start)
  next
    case False
    with d(6)[OF cin] obtain p where p: "map_of cf ?c = Some p" by blast
    from d(10)[OF p] have pV: "p \<in> ?V" .
    have g1: "map_of gs ?c = Some (real_of_int (tileDist start p) + 1)" by (rule d(11)[OF p])
    have g2: "map_of gs ?c = Some (real_of_int (tileDist start ?c))"
      using opt(2) by (simp only: opt(1)[symmetric])
    have "Some (real_of_int (tileDist start ?c)) = Some (real_of_int (tileDist start p) + 1)"
      by (simp only: g1[symmetric] g2[symmetric])
    then have "real_of_int (tileDist start ?c) = real_of_int (tileDist start p) + 1"
      by (simp only: option.inject)
    then have "real_of_int (tileDist start ?c) = real_of_int (tileDist start p + 1)" by simp
    then have dc: "tileDist start ?c = tileDist start p + 1" by (simp only: of_int_eq_iff)
    have "0 \<le> tileDist start p" by (rule tileDist_simps(2))
    with dc have nat: "nat (tileDist start ?c) = Suc (nat (tileDist start p))" by simp
    have "map_of cf2 ?c = Some p" using agree[of ?c] p by simp
    from chainIn.chain_step[OF False _ this chain_old[OF pV]]
    show ?thesis unfolding nat by simp
  qed
  have iV: "\<And>v. v \<in> ?V \<Longrightarrow> onMap m v" using i by blast
  have "\<forall>v \<in> ?V'. onMap m v \<and> chainIn ?V' cf2 start v (nat (tileDist start v))"
  proof
    fix v assume "v \<in> ?V'"
    then have "v \<in> ?V \<or> v = ?c" by auto
    then show "onMap m v \<and> chainIn ?V' cf2 start v (nat (tileDist start v))"
      using iV conmap chain_old chain_new by blast
  qed
  moreover have "goal \<notin> ?V'"
  proof -
    from i have "goal \<notin> ?V" by blast
    with ng show ?thesis by auto
  qed
  moreover have "distinct (visited @ [?c])"
  proof -
    from i have "distinct visited" by blast
    with nv show ?thesis by simp
  qed
  moreover have "steps + 1 + length openSet2 \<le> 1 + 4 * length (visited @ [?c])"
  proof -
    from i have "steps + length openSet \<le> 1 + 4 * length visited" by blast
    with pop_length[OF pop] d2(2) nslen show ?thesis by simp
  qed
  ultimately show ?thesis using c3 unfolding plainsInv_def by blast
qed

lemma plainsInv_found:
  assumes s: "onMap m start" and sg: "start \<noteq> goal"
    and inv: "plainsInv m start goal steps openSet cf gs visited"
    and pop: "MinHeap_pop openSet = Some (current, openSet1)"
    and cg: "nodeKey current = goal"
  shows "\<exists>p. reconstructPath cf start goal [] = Some (Inr p) \<and>
               int (length p) = tileDist start goal"
proof -
  let ?V = "set visited"
  let ?E = "{(v, n). v \<in> ?V \<and> onMap m n \<and> tileDist v n = 1}"
  note i = inv[unfolded plainsInv_def]
  from i have c: "coreInv m start goal ?V ?E cf (length openSet) (openSet, cf, gs)" by blast
  note d = coreInvD[OF c]
  have edges: "\<And>v n. v \<in> ?V \<Longrightarrow> onMap m n \<Longrightarrow> tileDist v n = 1 \<Longrightarrow> (v, n) \<in> ?E" by simp
  from i have gv: "goal \<notin> ?V" by blast
  then have nv: "nodeKey current \<notin> ?V" unfolding cg .
  note opt = popped_optimal[OF c edges s pop nv]
  from MinHeap_pop_Some(4)[OF pop] have cin: "current \<in> set openSet" .
  from d(6)[OF cin] sg obtain p where p: "map_of cf goal = Some p" unfolding cg by blast
  from d(10)[OF p] have pV: "p \<in> ?V" .
  have g1: "map_of gs goal = Some (real_of_int (tileDist start p) + 1)" by (rule d(11)[OF p])
  have g2: "map_of gs goal = Some (real_of_int (tileDist start goal))"
    using opt(2) unfolding cg by (simp only: opt(1)[unfolded cg, symmetric])
  have "Some (real_of_int (tileDist start goal)) = Some (real_of_int (tileDist start p) + 1)"
    by (simp only: g1[symmetric] g2[symmetric])
  then have "real_of_int (tileDist start goal) = real_of_int (tileDist start p + 1)" by simp
  then have dc: "tileDist start goal = tileDist start p + 1" by (simp only: of_int_eq_iff)
  from i pV have "chainIn ?V cf start p (nat (tileDist start p))" by blast
  from reconstructPath_chain[OF this, of "[goal]"] obtain pre where
    pre: "reconstructPath cf start p [goal] = Some (Inr (pre @ [goal]))"
         "length pre = nat (tileDist start p)" by blast
  have "reconstructPath cf start goal [] = reconstructPath cf start p [goal]"
    using sg p by (subst reconstructPath.simps) simp
  with pre(1) have r: "reconstructPath cf start goal [] = Some (Inr (pre @ [goal]))" by simp
  have "0 \<le> tileDist start p" by (rule tileDist_simps(2))
  with pre(2) dc have "int (length (pre @ [goal])) = tileDist start goal" by simp
  with r show ?thesis by blast
qed

lemma onMap_set:
  "{k. onMap m k} = {0..<width m} \<times> {0..<height m}"
  by (auto simp: onMap_def)

lemma card_onMap:
  assumes "0 \<le> width m" "0 \<le> height m"
  shows "finite {k. onMap m k}" "card {k. onMap m k} = nat (width m * height m)"
proof -
  show "finite {k. onMap m k}" unfolding onMap_set by simp
  have "card {k. onMap m k} = nat (width m) * nat (height m)"
    unfolding onMap_set by (simp add: card_cartesian_product)
  also have "\<dots> = nat (width m * height m)" using assms by (simp add: nat_mult_distrib)
  finally show "card {k. onMap m k} = nat (width m * height m)" .
qed

lemma plainsInv_exit:
  assumes wf: "wellFormedMap m" and s: "onMap m start" and g: "onMap m goal"
    and inv: "plainsInv m start goal steps openSet cf gs visited"
    and ex: "\<not> (length openSet > 0 \<and> steps < maxSteps)"
  shows "maxSteps < 4 * nat (width m * height m)"
proof -
  let ?V = "set visited"
  let ?E = "{(v, n). v \<in> ?V \<and> onMap m n \<and> tileDist v n = 1}"
  note i = inv[unfolded plainsInv_def]
  from i have c: "coreInv m start goal ?V ?E cf (length openSet) (openSet, cf, gs)" by blast
  have edges: "\<And>v n. v \<in> ?V \<Longrightarrow> onMap m n \<Longrightarrow> tileDist v n = 1 \<Longrightarrow> (v, n) \<in> ?E" by simp
  from i have gv: "goal \<notin> ?V" by blast
  from frontier_bound[OF c edges s g gv] obtain e where "e \<in> set openSet" by blast
  then have "openSet \<noteq> []" by auto
  then have len: "0 < length openSet" by simp
  with ex have ms: "maxSteps \<le> steps" by simp
  from i have cnt: "steps + length openSet \<le> 1 + 4 * length visited" by blast
  from i have dist: "distinct visited" by blast
  from i have von: "\<And>v. v \<in> ?V \<Longrightarrow> onMap m v" by blast
  from wf have nn: "0 \<le> width m" "0 \<le> height m" by (simp_all add: wellFormedMap_def)
  note co = card_onMap[OF nn]
  have "?V \<subseteq> {k. onMap m k} - {goal}" using von gv by blast
  then have "card ?V \<le> card ({k. onMap m k} - {goal})"
    by (rule card_mono[rotated]) (simp add: co(1))
  also have "\<dots> = card {k. onMap m k} - 1" using g by (simp add: co(1))
  finally have "card ?V \<le> nat (width m * height m) - 1" unfolding co(2) .
  moreover have "card ?V = length visited" using dist by (rule distinct_card)
  moreover have "0 < nat (width m * height m)"
  proof -
    from g have "{k. onMap m k} \<noteq> {}" by blast
    then have "0 < card {k. onMap m k}" using co(1) by (simp add: card_gt_0_iff)
    then show ?thesis unfolding co(2) .
  qed
  ultimately have "4 * length visited + 4 \<le> 4 * nat (width m * height m)" by simp
  with cnt len ms show ?thesis by simp
qed

lemma findPath_loop_plains:
  assumes wf: "wellFormedMap m" and ap: "allPlains m"
    and s: "onMap m start" and g: "onMap m goal" and sg: "start \<noteq> goal"
    and inv: "plainsInv m start goal steps openSet cf gs visited"
  shows "(\<exists>p. findPath_loop m start goal maxSteps steps openSet cf gs visited = Some (Inr (Some p))
              \<and> int (length p) = tileDist start goal)
         \<or> (findPath_loop m start goal maxSteps steps openSet cf gs visited = Some (Inr None)
              \<and> maxSteps < 4 * nat (width m * height m))"
proof (rule findPath_loop_rule[where I = "plainsInv m start goal"
        and Q = "\<lambda>r. (\<exists>p. r = Some (Inr (Some p)) \<and> int (length p) = tileDist start goal)
                   \<or> (r = Some (Inr None) \<and> maxSteps < 4 * nat (width m * height m))"])
  show "plainsInv m start goal steps openSet cf gs visited" by (rule inv)
next
  fix steps openSet cf gs visited
  assume "plainsInv m start goal steps openSet cf gs visited"
    and "\<not> (length openSet > 0 \<and> steps < maxSteps)"
  from plainsInv_exit[OF wf s g this]
  show "(\<exists>p. Some (Inr None) = Some (Inr (Some p)) \<and> int (length p) = tileDist start goal)
          \<or> (Some (Inr None) = Some (Inr None) \<and> maxSteps < 4 * nat (width m * height m))"
    by simp
next
  fix steps openSet cf gs visited current openSet1
  assume i: "plainsInv m start goal steps openSet cf gs visited"
    and pop: "MinHeap_pop openSet = Some (current, openSet1)"
    and cg: "nodeKey current = goal"
  from plainsInv_found[OF s sg i pop cg] obtain p where
    p: "reconstructPath cf start goal [] = Some (Inr p)" "int (length p) = tileDist start goal"
    by blast
  show "(\<exists>p. (case reconstructPath cf start goal [] of None \<Rightarrow> None
               | Some (Inl e) \<Rightarrow> Some (Inl e)
               | Some (Inr pth) \<Rightarrow> Some (Inr (Some pth))) = Some (Inr (Some p))
              \<and> int (length p) = tileDist start goal)
          \<or> ((case reconstructPath cf start goal [] of None \<Rightarrow> None
               | Some (Inl e) \<Rightarrow> Some (Inl e)
               | Some (Inr pth) \<Rightarrow> Some (Inr (Some pth))) = Some (Inr None)
              \<and> maxSteps < 4 * nat (width m * height m))"
    using p by simp
next
  fix steps openSet cf gs visited current openSet1
  assume "plainsInv m start goal steps openSet cf gs visited"
    and "MinHeap_pop openSet = Some (current, openSet1)"
    and "nodeKey current \<in> set visited"
  then show "plainsInv m start goal (steps + 1) openSet1 cf gs visited"
    by (rule plainsInv_skip)
next
  fix steps openSet cf gs visited current openSet1
  assume i: "plainsInv m start goal steps openSet cf gs visited"
    and pop: "MinHeap_pop openSet = Some (current, openSet1)"
    and ng: "nodeKey current \<noteq> goal"
    and nv: "nodeKey current \<notin> set visited"
  from getPassableNeighbors_wellFormed[OF wf] obtain ns where
    ns: "getPassableNeighbors m (node_x current) (node_y current) = Inr ns" by blast
  have "\<forall>openSet2 cf2 gs2.
          relaxNeighbors (fst goal) (snd goal) current (visited @ [nodeKey current]) ns
            (openSet1, cf, gs) = (openSet2, cf2, gs2) \<longrightarrow>
          plainsInv m start goal (steps + 1) openSet2 cf2 gs2 (visited @ [nodeKey current])"
    using plainsInv_expand[OF wf ap s i pop ng nv ns] by blast
  with ns show "\<exists>ns. getPassableNeighbors m (node_x current) (node_y current) = Inr ns \<and>
     (\<forall>openSet2 cf2 gs2.
         relaxNeighbors (fst goal) (snd goal) current (visited @ [nodeKey current]) ns
           (openSet1, cf, gs) = (openSet2, cf2, gs2) \<longrightarrow>
         plainsInv m start goal (steps + 1) openSet2 cf2 gs2 (visited @ [nodeKey current]))"
    by blast
qed

lemma relaxStep_nodes:
  assumes "e \<in> set (fst (relaxStep endX endY current visited (nx, ny, c) (openSet, cf, gs)))"
  shows "e \<in> set openSet \<or> node_x e = nx"
  using assms by (auto simp: relaxStep_def Let_def set_MinHeap_push split: if_splits)

lemma fold_relaxStep_nodes:
  "e \<in> set (fst (fold (relaxStep endX endY current visited) ns st)) \<Longrightarrow>
   e \<in> set (fst st) \<or> node_x e \<in> fst ` set ns"
proof (induction ns arbitrary: st)
  case Nil
  then show ?case by simp
next
  case (Cons n ns)
  obtain nx ny c where n: "n = (nx, ny, c)" by (cases n)
  obtain openSet cf gs where st: "st = (openSet, cf, gs)" by (cases st)
  from Cons.prems have "e \<in> set (fst (fold (relaxStep endX endY current visited) ns
                          (relaxStep endX endY current visited n st)))" by simp
  from Cons.IH[OF this]
  have "e \<in> set (fst (relaxStep endX endY current visited n st)) \<or> node_x e \<in> fst ` set ns" .
  then show ?case
  proof
    assume "e \<in> set (fst (relaxStep endX endY current visited n st))"
    from relaxStep_nodes[OF this[unfolded n st]] show ?thesis by (auto simp: n st)
  next
    assume "node_x e \<in> fst ` set ns"
    then show ?thesis by auto
  qed
qed

lemma getPassableNeighbors_near:
  assumes wf: "wellFormedMap m" and ns: "getPassableNeighbors m x y = Inr ns"
    and n: "nx \<in> fst ` set ns"
  shows "\<bar>nx - x\<bar> \<le> 1"
proof -
  from passableNeighborsIn_wellFormed[OF wf, of x y directions] ns
  have "ns = map (\<lambda>(dx, dy). (x + dx, y + dy,
                       neighborCost (the (tileAt m (x + dx) (y + dy)))))
                  (filter (\<lambda>(dx, dy). \<exists>t. tileAt m (x + dx) (y + dy) = Some t \<and> terrain t \<noteq> Mountain)
                     directions)"
    by (auto simp: getPassableNeighbors_def)
  with n obtain dr where "dr \<in> set directions" "nx = x + fst dr"
    by (auto simp: case_prod_beta)
  then show ?thesis by (auto simp: directions_def)
qed

lemma findPath_loop_needs_steps:
  assumes wf: "wellFormedMap m"
    and far: "int maxSteps \<le> \<bar>fst goal - sx\<bar>"
    and inv: "\<forall>e \<in> set openSet. \<bar>node_x e - sx\<bar> \<le> int steps"
  shows "\<forall>p. findPath_loop m start goal maxSteps steps openSet cf gs visited \<noteq> Some (Inr (Some p))"
proof (rule findPath_loop_rule[where
        I = "\<lambda>steps openSet cf gs visited. \<forall>e \<in> set openSet. \<bar>node_x e - sx\<bar> \<le> int steps"
        and Q = "\<lambda>r. \<forall>p. r \<noteq> Some (Inr (Some p))"])
  show "\<forall>e \<in> set openSet. \<bar>node_x e - sx\<bar> \<le> int steps" by (rule inv)
next
  show "\<forall>p. Some (Inr None) \<noteq> Some (Inr (Some p))" by simp
next
  fix steps openSet cf gs visited current openSet1
  assume i: "\<forall>e \<in> set openSet. \<bar>node_x e - sx\<bar> \<le> int steps"
    and st: "steps < maxSteps"
    and pop: "MinHeap_pop openSet = Some (current, openSet1)"
    and cg: "nodeKey current = goal"
  from MinHeap_pop_Some(4)[OF pop] i have "\<bar>node_x current - sx\<bar> \<le> int steps" by blast
  moreover from cg have "node_x current = fst goal" by (auto simp: nodeKey_def)
  ultimately have False using far st by simp
  then show "\<forall>p. (case reconstructPath cf start goal [] of None \<Rightarrow> None
               | Some (Inl e) \<Rightarrow> Some (Inl e)
               | Some (Inr pth) \<Rightarrow> Some (Inr (Some pth))) \<noteq> Some (Inr (Some p))" ..
next
  fix steps openSet cf gs visited current openSet1
  assume i: "\<forall>e \<in> set openSet. \<bar>node_x e - sx\<bar> \<le> int steps"
    and pop: "MinHeap_pop openSet = Some (current, openSet1)"
  show "\<forall>e \<in> set openSet1. \<bar>node_x e - sx\<bar> \<le> int (steps + 1)"
  proof
    fix e assume "e \<in> set openSet1"
    with MinHeap_pop_Some(5)[OF pop] i have "\<bar>node_x e - sx\<bar> \<le> int steps" by blast
    then show "\<bar>node_x e - sx\<bar> \<le> int (steps + 1)" by simp
  qed
next
  fix steps openSet cf gs visited current openSet1
  assume i: "\<forall>e \<in> set openSet. \<bar>node_x e - sx\<bar> \<le> int steps"
    and pop: "MinHeap_pop openSet = Some (current, openSet1)"
  from getPassableNeighbors_wellFormed[OF wf] obtain ns where
    ns: "getPassableNeighbors m (node_x current) (node_y current) = Inr ns" by blast
  from MinHeap_pop_Some(4)[OF pop] i have cur: "\<bar>node_x current - sx\<bar> \<le> int steps" by blast
  have "\<forall>e \<in> set openSet2. \<bar>node_x e - sx\<bar> \<le> int (steps + 1)"
    if r: "relaxNeighbors (fst goal) (snd goal) current (visited @ [nodeKey current]) ns
            (openSet1, cf, gs) = (openSet2, cf2, gs2)" for openSet2 cf2 gs2
  proof
    fix e assume "e \<in> set openSet2"
    then have "e \<in> set (fst (fold (relaxStep (fst goal) (snd goal) current
                  (visited @ [nodeKey current])) ns (openSet1, cf, gs)))"
      using r by (simp add: relaxNeighbors_fold)
    from fold_relaxStep_nodes[OF this]
    have "e \<in> set openSet1 \<or> node_x e \<in> fst ` set ns" by simp
    then show "\<bar>node_x e - sx\<bar> \<le> int (steps + 1)"
    proof
      assume "e \<in> set openSet1"
      with MinHeap_pop_Some(5)[OF pop] i have "\<bar>node_x e - sx\<bar> \<le> int steps" by blast
      then show ?thesis by simp
    next
      assume "node_x e \<in> fst ` set ns"
      from getPassableNeighbors_near[OF wf ns this] cur show ?thesis by simp
    qed
  qed
  with ns show "\<exists>ns. getPassableNeighbors m (node_x current) (node_y current) = Inr ns \<and>
     (\<forall>openSet2 cf2 gs2.
         relaxNeighbors (fst goal) (snd goal) current (visited @ [nodeKey current]) ns
           (openSet1, cf, gs) = (openSet2, cf2, gs2) \<longrightarrow>
         (\<forall>e \<in> set openSet2. \<bar>node_x e - sx\<bar> \<le> int (steps + 1)))"
    by blast
qed

lemma findPath_needs_steps:
  assumes wf: "wellFormedMap m"
    and ne: "startX \<noteq> endX \<or> startY \<noteq> endY"
    and far: "int maxSteps \<le> \<bar>endX - startX\<bar>"
  shows "findPath m startX startY endX endY maxSteps = Some (Inr None)"
proof -
  from findPath_total[OF wf] obtain r where
    r: "findPath m startX startY endX endY maxSteps = Some (Inr r)" by blast
  have "r = None"
  proof (cases r)
    case None
    then show ?thesis .
  next
    case (Some p)
    let ?e = "\<lparr>node_x = startX, node_y = startY,
               node_f = real_of_int (\<bar>endX - startX\<bar> + \<bar>endY - startY\<bar>), node_g = 0\<rparr>"
    have "\<forall>e \<in> set (MinHeap_push [] ?e). \<bar>node_x e - startX\<bar> \<le> int 0"
      by (simp add: MinHeap_push_single)
    from findPath_loop_needs_steps[OF wf _ this, of maxSteps "(endX, endY)" "(startX, startY)"
           "[]" "[((startX, startY), 0)]" "[]"] far
    have "findPath_loop m (startX, startY) (endX, endY) maxSteps 0 (MinHeap_push [] ?e) []
            [((startX, startY), 0)] [] \<noteq> Some (Inr (Some p))" by simp
    with r Some ne show ?thesis
      by (auto simp: findPath_def split: option.splits if_splits)
  qed
  with r show ?thesis by simp
qed

lemma wellFormedMap_uniformMap: "wellFormedMap (uniformMap t w h)"
  by (simp add: wellFormedMap_def uniformMap_def list_all_iff)

lemma allPlains_uniformMap: "allPlains (uniformMap Plains w h)"
  by (simp add: allPlains_def uniformMap_def list_all_iff newTile_def)

subsection \<open>C6: the length of the path found on open plains\<close>

text \<open>C6. On a map whose rows and columns match its dimensions: a call of \<open>findPath\<close> with
  equal start and end returns the empty path; with distinct start and end and a mountain on
  the target tile it returns \<open>null\<close>; and on a map whose tiles are all plains without a
  road, for distinct start and end cells on the map, it returns either a path whose length
  is the Manhattan distance between start and end, or \<open>null\<close>, and \<open>null\<close> only when the
  step budget \<open>maxSteps\<close> is below four times the number of tiles.\<close>

theorem findPath_plains_manhattan:
  assumes wf: "wellFormedMap m"
  shows "(startX = endX \<and> startY = endY \<longrightarrow>
            findPath m startX startY endX endY maxSteps = Some (Inr (Some []))) \<and>
         ((startX \<noteq> endX \<or> startY \<noteq> endY) \<and>
            (\<exists>t. tileAt m endX endY = Some t \<and> terrain t = Mountain) \<longrightarrow>
            findPath m startX startY endX endY maxSteps = Some (Inr None)) \<and>
         ((startX \<noteq> endX \<or> startY \<noteq> endY) \<and> allPlains m \<and>
            onMap m (startX, startY) \<and> onMap m (endX, endY) \<longrightarrow>
            (\<exists>p. findPath m startX startY endX endY maxSteps = Some (Inr (Some p)) \<and>
                 int (length p) = manhattanDistance startX startY endX endY) \<or>
            (findPath m startX startY endX endY maxSteps = Some (Inr None) \<and>
             maxSteps < 4 * nat (width m * height m)))"
proof (intro conjI impI)
  assume "startX = endX \<and> startY = endY"
  then show "findPath m startX startY endX endY maxSteps = Some (Inr (Some []))"
    by (simp add: findPath_def)
next
  assume "(startX \<noteq> endX \<or> startY \<noteq> endY) \<and>
            (\<exists>t. tileAt m endX endY = Some t \<and> terrain t = Mountain)"
  then show "findPath m startX startY endX endY maxSteps = Some (Inr None)"
    by (auto simp: findPath_def)
next
  assume a: "(startX \<noteq> endX \<or> startY \<noteq> endY) \<and> allPlains m \<and>
            onMap m (startX, startY) \<and> onMap m (endX, endY)"
  then have ne: "startX \<noteq> endX \<or> startY \<noteq> endY" and ap: "allPlains m"
    and s: "onMap m (startX, startY)" and g: "onMap m (endX, endY)" by blast+
  from g tileAt_wellFormed[OF wf, of endX endY] obtain t where t: "tileAt m endX endY = Some t"
    by (auto simp: onMap_def)
  from tileAt_allPlains(1)[OF ap t] have tp: "terrain t \<noteq> Mountain" by simp
  let ?e = "\<lparr>node_x = startX, node_y = startY,
             node_f = real_of_int (\<bar>endX - startX\<bar> + \<bar>endY - startY\<bar>), node_g = 0\<rparr>"
  have fp: "findPath m startX startY endX endY maxSteps =
          findPath_loop m (startX, startY) (endX, endY) maxSteps 0 (MinHeap_push [] ?e) []
            [((startX, startY), 0)] []"
    using ne t tp by (auto simp: findPath_def)
  have sg: "(startX, startY) \<noteq> (endX, endY)" using ne by simp
  have inv: "plainsInv m (startX, startY) (endX, endY) 0 (MinHeap_push [] ?e) []
               [((startX, startY), 0)] []"
    using plainsInv_init[OF s, of "(endX, endY)"] by simp
  have td: "tileDist (startX, startY) (endX, endY) = manhattanDistance startX startY endX endY"
    by (simp add: tileDist_def)
  from findPath_loop_plains[OF wf ap s g sg inv, of maxSteps]
  show "(\<exists>p. findPath m startX startY endX endY maxSteps = Some (Inr (Some p)) \<and>
                 int (length p) = manhattanDistance startX startY endX endY) \<or>
            (findPath m startX startY endX endY maxSteps = Some (Inr None) \<and>
             maxSteps < 4 * nat (width m * height m))"
    unfolding fp td .
qed

theorem findPath_plains_manhattan_witness:
  "wellFormedMap (uniformMap Plains 3 3) \<and> allPlains (uniformMap Plains 3 3) \<and>
   onMap (uniformMap Plains 3 3) (0, 0) \<and> onMap (uniformMap Plains 3 3) (2, 1) \<and>
   manhattanDistance 0 0 2 1 = 3 \<and>
   (\<exists>p. findPath (uniformMap Plains 3 3) 0 0 2 1 DEFAULT_MAX_STEPS = Some (Inr (Some p)) \<and>
        length p = 3)"
proof -
  have 1: "wellFormedMap (uniformMap Plains 3 3)" by (rule wellFormedMap_uniformMap)
  have 2: "allPlains (uniformMap Plains 3 3)" by (rule allPlains_uniformMap)
  have 3: "onMap (uniformMap Plains 3 3) (0, 0)" "onMap (uniformMap Plains 3 3) (2, 1)"
    by (simp_all add: onMap_def uniformMap_def)
  have 4: "manhattanDistance 0 0 2 1 = 3" by (simp add: manhattanDistance_def)
  have 5: "\<not> DEFAULT_MAX_STEPS < 4 * nat (width (uniformMap Plains 3 3) * height (uniformMap Plains 3 3))"
    by (simp add: DEFAULT_MAX_STEPS_def uniformMap_def)
  from findPath_plains_manhattan[OF 1, of 0 2 0 1 DEFAULT_MAX_STEPS] 2 3 4 5
  have "\<exists>p. findPath (uniformMap Plains 3 3) 0 0 2 1 DEFAULT_MAX_STEPS = Some (Inr (Some p)) \<and>
        int (length p) = 3"
    by simp
  then have "\<exists>p. findPath (uniformMap Plains 3 3) 0 0 2 1 DEFAULT_MAX_STEPS = Some (Inr (Some p)) \<and>
        length p = 3"
    by auto
  with 1 2 3 4 show ?thesis by blast
qed

text \<open>A corridor of 502 plains tiles: with the default budget of 500 steps the search from
  one end to the other gives up, although the two cells are distinct cells of an all-plains
  map. And a call whose start and end are the same mountain tile returns the empty path,
  not \<open>null\<close>.\<close>

theorem findPath_budget_counterexample:
  "allPlains (uniformMap Plains 502 1) \<and>
   onMap (uniformMap Plains 502 1) (0, 0) \<and> onMap (uniformMap Plains 502 1) (501, 0) \<and>
   findPath (uniformMap Plains 502 1) 0 0 501 0 DEFAULT_MAX_STEPS = Some (Inr None) \<and>
   map_option terrain (tileAt (uniformMap Mountain 1 1) 0 0) = Some Mountain \<and>
   findPath (uniformMap Mountain 1 1) 0 0 0 0 DEFAULT_MAX_STEPS = Some (Inr (Some []))"
proof -
  have 1: "findPath (uniformMap Plains 502 1) 0 0 501 0 DEFAULT_MAX_STEPS = Some (Inr None)"
    by (rule findPath_needs_steps[OF wellFormedMap_uniformMap])
       (simp_all add: DEFAULT_MAX_STEPS_def)
  have 2: "onMap (uniformMap Plains 502 1) (0, 0)" "onMap (uniformMap Plains 502 1) (501, 0)"
    by (simp_all add: onMap_def uniformMap_def)
  have 3: "map_option terrain (tileAt (uniformMap Mountain 1 1) 0 0) = Some Mountain"
    by (simp add: tileAt_def uniformMap_def newTile_def)
  have 4: "findPath (uniformMap Mountain 1 1) 0 0 0 0 DEFAULT_MAX_STEPS = Some (Inr (Some []))"
    by (simp add: findPath_def)
  from allPlains_uniformMap 1 2 3 4 show ?thesis by blast
qed

end
